theory Spec2Isabelle
  imports Main "HOL-Library.Sublist"
begin

section \<open>The snapshot pipeline of athena\_any\_prompt.ts\<close>

text \<open>
  The program captures a series of screenshots of a running workflow (the loop at the end of
  \<^verbatim>\<open>main\<close>), sends them one by one to a chat model in a single growing conversation
  (\<^verbatim>\<open>evaluateScreenshotsWithClaude\<close>) and writes a report (\<^verbatim>\<open>createReports\<close>).

  Everything the program does to the outside (the browser page, the chat model, the file
  system, the clock) is recorded in a trace of events, in the order of the awaits of the
  source. What the outside answers is given by an environment of oracles; each oracle sees
  the trace so far, so an operation can fail the first two times it is tried and succeed
  the third time. A thrown JavaScript error is the value \<open>Inl e\<close>, where \<open>e\<close> is the
  text the source gets from the error by string conversion.
\<close>

subsection \<open>JavaScript strings and paths\<close>

type_synonym error = string

text \<open>A number in a template literal: decimal digits, with a sign when negative.\<close>

fun show_nat :: "nat \<Rightarrow> string" where
  "show_nat n =
     (if n < 10 then [char_of (48 + n)]
      else show_nat (n div 10) @ [char_of (48 + n mod 10)])"

declare show_nat.simps [simp del]

definition show_int :: "int \<Rightarrow> string" where
  "show_int k = (if k < 0 then CHR ''-'' # show_nat (nat (- k)) else show_nat (nat k))"

text \<open>\<^verbatim>\<open>s.replace(/c/g, r)\<close> for a single character \<open>c\<close>.\<close>

definition replace_all_char :: "char \<Rightarrow> string \<Rightarrow> string \<Rightarrow> string" where
  "replace_all_char c r s = concat (map (\<lambda>x. if x = c then r else [x]) s)"

text \<open>
  \<^verbatim>\<open>s.replace(pat, rep)\<close> with a string pattern: only the first occurrence is replaced.
  (The replacement text of the program holds no \<^verbatim>\<open>$\<close>, so no replacement pattern applies.)
\<close>

fun replace_first :: "string \<Rightarrow> string \<Rightarrow> string \<Rightarrow> string" where
  "replace_first pat rep [] = (if pat = [] then rep else [])"
| "replace_first pat rep (c # cs) =
     (if prefix pat (c # cs) then rep @ drop (length pat) (c # cs)
      else c # replace_first pat rep cs)"

text \<open>\<^verbatim>\<open>p.split('/').pop()\<close>: what follows the last slash.\<close>

definition split_pop :: "string \<Rightarrow> string" where
  "split_pop p = rev (takeWhile (\<lambda>c. c \<noteq> CHR ''/'') (rev p))"

text \<open>
  \<^verbatim>\<open>path.basename(p)\<close> of Node's \<^verbatim>\<open>path\<close> module (POSIX): trailing slashes are
  dropped, then what follows the last slash is returned.
\<close>

definition basename :: "string \<Rightarrow> string" where
  "basename p = split_pop (rev (dropWhile (\<lambda>c. c = CHR ''/'') (rev p)))"

text \<open>
  \<^verbatim>\<open>path.join(dir, name)\<close> on the directory and file names of this program, which hold
  no empty, \<^verbatim>\<open>.\<close> or \<^verbatim>\<open>..\<close> segment: the two joined by a slash.
\<close>

definition path_join :: "string \<Rightarrow> string \<Rightarrow> string" where
  "path_join dir name = dir @ ''/'' @ name"

text \<open>\<^verbatim>\<open>xs[i]\<close>: \<^verbatim>\<open>undefined\<close> (here \<open>None\<close>) beyond the end of the array.\<close>

definition js_index :: "'a list \<Rightarrow> nat \<Rightarrow> 'a option" where
  "js_index xs i = (if i < length xs then Some (xs ! i) else None)"

subsection \<open>Events, the environment and the world\<close>

datatype part = TextPart string | ImageUrlPart string

datatype content = Str string | Parts "part list"

datatype message = SystemMessage content | HumanMessage content | AIMessage content

datatype fs_op =
    MkdirSync string
  | CopyFileSync string string
  | WriteFileSync string string

text \<open>
  An event holds the arguments of the call and what came back: \<open>Some e\<close> or \<open>Inl e\<close>
  when the call threw \<open>e\<close>.
\<close>

datatype event =
    NewDate
  | PageScreenshot string "error option"
  | WaitForTimeout int
  | ReadFileSync string "error + string"
  | ModelCall "message list" "error + string"
  | ExistsSync string bool
  | Fs fs_op "error option"

datatype console_line = ConsoleLog string | ConsoleError string

record world =
  trace :: "event list"
  console :: "console_line list"

text \<open>
  The oracles. \<open>read_outcome\<close> gives the content of the file in base64, as
  \<^verbatim>\<open>imageToBase64\<close> returns it. A timer (\<^verbatim>\<open>page.waitForTimeout\<close>) and the console
  never fail.
\<close>

record env =
  date_locale_string :: "event list \<Rightarrow> string"
  date_iso_string :: "event list \<Rightarrow> string"
  screenshot_outcome :: "event list \<Rightarrow> string \<Rightarrow> error option"
  read_outcome :: "event list \<Rightarrow> string \<Rightarrow> error + string"
  chat_outcome :: "event list \<Rightarrow> message list \<Rightarrow> error + string"
  exists_outcome :: "event list \<Rightarrow> string \<Rightarrow> bool"
  fs_outcome :: "event list \<Rightarrow> fs_op \<Rightarrow> error option"

definition emit :: "event \<Rightarrow> world \<Rightarrow> world" where
  "emit e w = w\<lparr>trace := trace w @ [e]\<rparr>"

definition console_log :: "string \<Rightarrow> world \<Rightarrow> world" where
  "console_log s w = w\<lparr>console := console w @ [ConsoleLog s]\<rparr>"

definition console_error :: "string \<Rightarrow> world \<Rightarrow> world" where
  "console_error s w = w\<lparr>console := console w @ [ConsoleError s]\<rparr>"

definition new_date_locale :: "env \<Rightarrow> world \<Rightarrow> string \<times> world" where
  "new_date_locale ev w = (date_locale_string ev (trace w), emit NewDate w)"

definition new_date_iso :: "env \<Rightarrow> world \<Rightarrow> string \<times> world" where
  "new_date_iso ev w = (date_iso_string ev (trace w), emit NewDate w)"

definition page_screenshot :: "env \<Rightarrow> string \<Rightarrow> world \<Rightarrow> (error + unit) \<times> world" where
  "page_screenshot ev p w =
     (let r = screenshot_outcome ev (trace w) p;
          w' = emit (PageScreenshot p r) w
      in case r of None \<Rightarrow> (Inr (), w') | Some e \<Rightarrow> (Inl e, w'))"

definition wait_for_timeout :: "int \<Rightarrow> world \<Rightarrow> world" where
  "wait_for_timeout ms w = emit (WaitForTimeout ms) w"

definition model_call :: "env \<Rightarrow> message list \<Rightarrow> world \<Rightarrow> (error + string) \<times> world" where
  "model_call ev msgs w =
     (let r = chat_outcome ev (trace w) msgs in (r, emit (ModelCall msgs r) w))"

definition exists_sync :: "env \<Rightarrow> string \<Rightarrow> world \<Rightarrow> bool \<times> world" where
  "exists_sync ev p w =
     (let b = exists_outcome ev (trace w) p in (b, emit (ExistsSync p b) w))"

definition fs_do :: "env \<Rightarrow> fs_op \<Rightarrow> world \<Rightarrow> (error + unit) \<times> world" where
  "fs_do ev op w =
     (let r = fs_outcome ev (trace w) op;
          w' = emit (Fs op r) w
      in case r of None \<Rightarrow> (Inr (), w') | Some e \<Rightarrow> (Inl e, w'))"

text \<open>
  \<^verbatim>\<open>fs.writeFileSync(path, data, 'utf8')\<close>. Node checks the type of \<open>data\<close> before it
  touches the file: \<^verbatim>\<open>undefined\<close> throws a TypeError and no file is opened.
\<close>

definition invalid_data_error :: error where
  \<open>invalid_data_error =
     ''TypeError [ERR_INVALID_ARG_TYPE]: The "data" argument must be of type string or an instance of Buffer, TypedArray, or DataView. Received undefined''\<close>

definition write_file_sync :: "env \<Rightarrow> string \<Rightarrow> string option \<Rightarrow> world \<Rightarrow> (error + unit) \<times> world" where
  "write_file_sync ev p data w =
     (case data of
        None \<Rightarrow> (Inl invalid_data_error, w)
      | Some d \<Rightarrow> fs_do ev (WriteFileSync p d) w)"

subsection \<open>The capture loop of main (lines 383 to 419)\<close>

text \<open>
  The \<^verbatim>\<open>while (screenshotRetries > 0)\<close> loop: \<open>i\<close> and \<open>numScreenshots\<close> are only
  printed. A successful attempt breaks out of the loop; a failed one decrements the counter,
  and either rethrows (counter at zero) or waits 5000 ms and goes round again.
\<close>

fun screenshot_retry :: "env \<Rightarrow> nat \<Rightarrow> int \<Rightarrow> string \<Rightarrow> nat \<Rightarrow> world \<Rightarrow> (error + unit) \<times> world" where
  "screenshot_retry ev i numScreenshots screenshotPath screenshotRetries w =
     (if screenshotRetries > 0 then
        (case page_screenshot ev screenshotPath w of
           (Inr u, w1) \<Rightarrow>
             (Inr (), console_log (''Screenshot '' @ show_nat (i + 1) @ ''/'' @ show_int numScreenshots
                        @ '' taken: '' @ screenshotPath) w1)
         | (Inl err, w1) \<Rightarrow>
             (if screenshotRetries - 1 = 0 then
                (Inl err, console_error ''Failed to take screenshot after multiple attempts'' w1)
              else
                screenshot_retry ev i numScreenshots screenshotPath (screenshotRetries - 1)
                  (wait_for_timeout 5000
                    (console_log (''Screenshot failed, retrying... ('' @ show_nat (screenshotRetries - 1)
                        @ '' attempts left)'') w1))))
      else (Inr (), w))"

declare screenshot_retry.simps [simp del]

definition screenshot_name :: "nat \<Rightarrow> string \<Rightarrow> string" where
  "screenshot_name i isoString =
     ''screenshot-'' @ show_nat (i + 1) @ ''-'' @ replace_all_char CHR '':'' ''-'' isoString @ ''.png''"

function capture_loop ::
  "env \<Rightarrow> string \<Rightarrow> int \<Rightarrow> int \<Rightarrow> nat \<Rightarrow> string list \<Rightarrow> world \<Rightarrow> (error + string list) \<times> world" where
  "capture_loop ev screenshotsDir numScreenshots screenshotIntervalMs i screenshotPaths w =
     (if int i < numScreenshots then
        (let (isoString, w1) = new_date_iso ev w;
             screenshotPath = path_join screenshotsDir (screenshot_name i isoString);
             w2 = console_log (''Taking screenshot '' @ show_nat (i + 1) @ ''/''
                    @ show_int numScreenshots @ ''...'') w1
         in case screenshot_retry ev i numScreenshots screenshotPath 3 w2 of
              (Inl err, w3) \<Rightarrow> (Inl err, w3)
            | (Inr u, w3) \<Rightarrow>
                capture_loop ev screenshotsDir numScreenshots screenshotIntervalMs (i + 1)
                  (screenshotPaths @ [screenshotPath])
                  (if int i < numScreenshots - 1 then
                     wait_for_timeout screenshotIntervalMs
                       (console_log (''Waiting '' @ show_int screenshotIntervalMs
                          @ ''ms before taking next screenshot...'') w3)
                   else w3))
      else (Inr screenshotPaths, w))"
  by pat_completeness auto
termination
  by (relation "measure (\<lambda>(ev, d, n, t, i, ps, w). nat (n - int i))") auto

declare capture_loop.simps [simp del]

subsection \<open>evaluateScreenshotsWithClaude\<close>

definition system_prompt :: string where
  "system_prompt =
     ''You are an expert at analyzing screenshots of web applications. '' @
     ''You provide detailed observations about what you see and track progress across multiple screenshots. '' @
     ''If you see any errors, issues, or messages like 'I'm sorry but I can't process your request', flag them clearly.''"

definition first_prompt :: string where
  "first_prompt =
     ''Evaluate this screenshot of a workflow and explain everything you see. If you see any errors, clearly state so.''"

definition later_prompt :: string where
  "later_prompt =
     ''Analyze this new screenshot as well as the previous screenshots and annotations. '' @
     ''Check if the workflow is progressing well. '' @
     ''If you see any issues (errors, mistakes, messages like 'I'm sorry but I can't process your request'), flag them clearly. '' @
     ''Compare with previous screenshots to identify changes or progress.'' @
     ''Output structure: 1. Issues: No issues/List issues 2. Documents created: .. 3. Workflow progression: 2 words on one step + 2 words on 2nd + ... 4. Agents & Tools used: agent 1: tool 1, tool 2; agent 2: ...  5. Final state: 1 sentence one the final state. ''"

definition summary_prompt :: string where
  "summary_prompt =
     ''Based on all the screenshots you've analyzed, please provide a summary of the workflow execution. Be concise and provide the most important points first: errors, if no errors/issues, what was done, what agents worked/what documents created.  '' @
     ''Did the workflow run successfully? Were there any issues or errors? '' @
     ''Please format your response as a clear summary with bullet points for any issues found, no more than 5 sentences/bullet points '' @
     ''and reference the specific screenshots where issues were observed.''"

text \<open>The prompt of the \<open>i\<close>-th screenshot (lines 46 to 57).\<close>

definition promptText :: "nat \<Rightarrow> string" where
  "promptText i = (if i = 0 then first_prompt else later_prompt)"

definition user_turn :: "nat \<Rightarrow> string \<Rightarrow> message" where
  "user_turn i base64Image =
     HumanMessage (Parts [TextPart (promptText i),
                          ImageUrlPart (''data:image/png;base64,'' @ base64Image)])"

definition imageToBase64 :: "env \<Rightarrow> string \<Rightarrow> world \<Rightarrow> (error + string) \<times> world" where
  "imageToBase64 ev filePath w =
     (let r = read_outcome ev (trace w) filePath in (r, emit (ReadFileSync filePath r) w))"

text \<open>The local variables of the function that the loop updates.\<close>

record locals =
  messages :: "message list"
  annotations :: "string list"
  conversationLog :: string

text \<open>The body of the loop over the screenshots (lines 39 to 92), for the index \<open>i\<close>.\<close>

definition eval_step :: "env \<Rightarrow> string list \<Rightarrow> nat \<Rightarrow> locals \<Rightarrow> world \<Rightarrow> (error + locals) \<times> world" where
  "eval_step ev screenshotPaths i loc w =
     (let screenshotPath = screenshotPaths ! i;
          screenshotFilename = basename screenshotPath;
          w1 = console_log (''Processing screenshot '' @ show_nat (i + 1) @ ''/''
                 @ show_nat (length screenshotPaths) @ '': '' @ screenshotFilename) w
      in case imageToBase64 ev screenshotPath w1 of
           (Inl err, w2) \<Rightarrow> (Inl err, w2)
         | (Inr base64Image, w2) \<Rightarrow>
             (let msgs = messages loc @ [user_turn i base64Image]
              in case model_call ev msgs w2 of
                   (Inl err, w3) \<Rightarrow> (Inl err, w3)
                 | (Inr annotation, w3) \<Rightarrow>
                     (let (stamp, w4) = new_date_locale ev w3
                      in (Inr \<lparr>messages = msgs @ [AIMessage (Str annotation)],
                               annotations = annotations loc @ [annotation],
                               conversationLog = conversationLog loc
                                 @ ''\<newline>\<newline>## Screenshot '' @ show_nat (i + 1) @ '': ''
                                 @ screenshotFilename @ ''\<newline>''
                                 @ ''*Timestamp: '' @ stamp @ ''*\<newline>\<newline>''
                                 @ ''### Analysis:\<newline>'' @ annotation @ ''\<newline>''\<rparr>,
                          console_log (''Completed analysis of screenshot '' @ show_nat (i + 1)
                            @ ''/'' @ show_nat (length screenshotPaths)) w4))))"

function eval_loop :: "env \<Rightarrow> string list \<Rightarrow> nat \<Rightarrow> locals \<Rightarrow> world \<Rightarrow> (error + locals) \<times> world" where
  "eval_loop ev screenshotPaths i loc w =
     (if i < length screenshotPaths then
        (case eval_step ev screenshotPaths i loc w of
           (Inl err, w') \<Rightarrow> (Inl err, w')
         | (Inr loc', w') \<Rightarrow> eval_loop ev screenshotPaths (i + 1) loc' w')
      else (Inr loc, w))"
  by pat_completeness auto
termination
  by (relation "measure (\<lambda>(ev, ps, i, loc, w). length ps - i)") auto

declare eval_loop.simps [simp del]

text \<open>
  The body of the \<^verbatim>\<open>try\<close> block. On success it gives the local variables as they are
  when the function returns, and the summary.
\<close>

definition evaluate_try :: "env \<Rightarrow> string list \<Rightarrow> string \<Rightarrow> world \<Rightarrow> (error + locals \<times> string) \<times> world" where
  "evaluate_try ev screenshotPaths outputDir w =
     (let w0 = console_log ''Starting screenshot evaluation with Claude...'' w
      in case eval_loop ev screenshotPaths 0
                \<lparr>messages = [SystemMessage (Str system_prompt)], annotations = [],
                 conversationLog = []\<rparr> w0 of
           (Inl err, w1) \<Rightarrow> (Inl err, w1)
         | (Inr loc, w1) \<Rightarrow>
             (let msgs = messages loc @ [HumanMessage (Str summary_prompt)];
                  w2 = console_log ''Generating workflow summary...'' w1
              in case model_call ev msgs w2 of
                   (Inl err, w3) \<Rightarrow> (Inl err, w3)
                 | (Inr summary, w3) \<Rightarrow>
                     (let (stamp, w4) = new_date_locale ev w3;
                          clog = conversationLog loc @ ''\<newline>\<newline>## Workflow Summary\<newline>''
                                 @ ''*Generated on: '' @ stamp @ ''*\<newline>\<newline>'' @ summary
                      in case write_file_sync ev (path_join outputDir ''conversation_log.md'')
                                (Some clog) w4 of
                           (Inl err, w5) \<Rightarrow> (Inl err, w5)
                         | (Inr u, w5) \<Rightarrow>
                             (Inr (loc\<lparr>messages := msgs, conversationLog := clog\<rparr>, summary),
                              console_log ''Evaluation complete. Conversation log saved.'' w5))))"

text \<open>The function: the \<^verbatim>\<open>try\<close> block and its \<^verbatim>\<open>catch\<close> (lines 125 to 131).\<close>

definition evaluateScreenshotsWithClaude ::
  "env \<Rightarrow> string list \<Rightarrow> string \<Rightarrow> world \<Rightarrow> (string list \<times> string) \<times> world" where
  "evaluateScreenshotsWithClaude ev screenshotPaths outputDir w =
     (case evaluate_try ev screenshotPaths outputDir w of
        (Inr (loc, summary), w') \<Rightarrow> ((annotations loc, summary), w')
      | (Inl err, w') \<Rightarrow>
          (([''Error evaluating screenshots: '' @ err], ''Error generating summary: '' @ err),
           console_error (''Error evaluating screenshots with Claude: '' @ err) w'))"

subsection \<open>createReports\<close>

definition annotation_name :: "string \<Rightarrow> string" where
  "annotation_name filename = replace_first ''.png'' ''-annotation.md'' filename"

text \<open>The loop over the screenshots (lines 150 to 170).\<close>

function report_loop :: "env \<Rightarrow> string list \<Rightarrow> string list \<Rightarrow> string \<Rightarrow> nat \<Rightarrow> world \<Rightarrow> (error + unit) \<times> world" where
  "report_loop ev screenshotPaths anns outputDir i w =
     (if i < length screenshotPaths then
        (let screenshotPath = screenshotPaths ! i;
             annotation = js_index anns i;
             screenshotFilename = basename screenshotPath
         in case fs_do ev (CopyFileSync screenshotPath (path_join outputDir screenshotFilename)) w of
              (Inl err, w1) \<Rightarrow> (Inl err, w1)
            | (Inr u, w1) \<Rightarrow>
                (case write_file_sync ev (path_join outputDir (annotation_name screenshotFilename))
                        annotation w1 of
                   (Inl err, w2) \<Rightarrow> (Inl err, w2)
                 | (Inr u, w2) \<Rightarrow>
                     report_loop ev screenshotPaths anns outputDir (i + 1)
                       (console_log (''Saved screenshot and annotation for '' @ screenshotFilename) w2)))
      else (Inr (), w))"
  by pat_completeness auto
termination
  by (relation "measure (\<lambda>(ev, ps, anns, d, i, w). length ps - i)") auto

declare report_loop.simps [simp del]

text \<open>The index document (lines 180 to 231): one item for each screenshot, in order.\<close>

definition index_item :: "nat \<Rightarrow> string \<Rightarrow> string" where
  \<open>index_item index path =
     (let filename = split_pop path;
          annotationFilename = annotation_name filename
      in ''\<newline>        <div class="screenshot-item">\<newline>''
         @ ''          <h3>Screenshot '' @ show_nat (index + 1) @ ''</h3>\<newline>''
         @ ''          <img src="'' @ filename @ ''" alt="Screenshot '' @ show_nat (index + 1)
         @ ''" style="max-height: 200px;">\<newline>''
         @ ''          <p><a href="'' @ annotationFilename
         @ ''" target="_blank">View Analysis</a></p>\<newline>''
         @ ''        </div>\<newline>      '')\<close>

definition index_items :: "string list \<Rightarrow> string list" where
  "index_items screenshotPaths =
     map (\<lambda>(index, path). index_item index path)
       (zip [0 ..< length screenshotPaths] screenshotPaths)"

definition index_head :: "string \<Rightarrow> string \<Rightarrow> string" where
  \<open>index_head stamp summary =
     ''\<newline><!DOCTYPE html>\<newline><html>\<newline><head>\<newline>''
     @ ''  <title>Athena Workflow Analysis</title>\<newline>''
     @ ''  <style>\<newline>''
     @ ''    body { font-family: Arial, sans-serif; margin: 0; padding: 20px; }\<newline>''
     @ ''    h1, h2 { color: #333; }\<newline>''
     @ ''    .timestamp { color: #666; font-size: 0.9em; margin-bottom: 20px; }\<newline>''
     @ ''    .summary { background-color: #f5f5f5; padding: 20px; border-radius: 5px; margin-bottom: 30px; }\<newline>''
     @ ''    .screenshot-list { display: flex; flex-wrap: wrap; gap: 20px; }\<newline>''
     @ ''    .screenshot-item { border: 1px solid #ddd; padding: 15px; border-radius: 5px; width: 300px; }\<newline>''
     @ ''    .screenshot-item img { max-width: 100%; }\<newline>''
     @ ''    .screenshot-item h3 { margin-top: 0; }\<newline>''
     @ ''    .links { margin-top: 30px; }\<newline>''
     @ ''    .links a { display: block; margin-bottom: 10px; }\<newline>''
     @ ''  </style>\<newline></head>\<newline><body>\<newline>''
     @ ''  <h1>Athena Workflow Analysis</h1>\<newline>''
     @ ''  <div class="timestamp">Generated on: '' @ stamp @ ''</div>\<newline>''
     @ ''  \<newline>''
     @ ''  <div class="summary">\<newline>''
     @ ''    <h2>Workflow Summary</h2>\<newline>''
     @ ''    <div class="markdown-content">\<newline>''
     @ ''      '' @ replace_all_char CHR ''\<newline>'' ''<br>'' summary @ ''\<newline>''
     @ ''    </div>\<newline>''
     @ ''  </div>\<newline>''
     @ ''  \<newline>''
     @ ''  <h2>Screenshots</h2>\<newline>''
     @ ''  <div class="screenshot-list">\<newline>''
     @ ''    ''\<close>

definition index_tail :: string where
  \<open>index_tail =
     ''\<newline>  </div>\<newline>''
     @ ''  \<newline>''
     @ ''  <div class="links">\<newline>''
     @ ''    <h2>Detailed Analysis</h2>\<newline>''
     @ ''    <a href="conversation_log.md" target="_blank">View Complete Conversation Log</a>\<newline>''
     @ ''    <a href="workflow_summary.md" target="_blank">View Workflow Summary</a>\<newline>''
     @ ''  </div>\<newline></body>\<newline></html>\<newline>    ''\<close>

definition indexHtml :: "string \<Rightarrow> string \<Rightarrow> string list \<Rightarrow> string" where
  "indexHtml stamp summary screenshotPaths =
     index_head stamp summary @ concat (index_items screenshotPaths) @ index_tail"

text \<open>The body of the \<^verbatim>\<open>try\<close> block (lines 142 to 239).\<close>

definition createReports_try ::
  "env \<Rightarrow> string list \<Rightarrow> string list \<Rightarrow> string \<Rightarrow> string \<Rightarrow> world \<Rightarrow> (error + unit) \<times> world" where
  "createReports_try ev screenshotPaths anns summary outputDir w =
     (let w0 = console_log ''Creating reports...'' w;
          (there, w1) = exists_sync ev outputDir w0
      in case (if \<not> there then fs_do ev (MkdirSync outputDir) w1 else (Inr (), w1)) of
           (Inl err, w2) \<Rightarrow> (Inl err, w2)
         | (Inr u, w2) \<Rightarrow>
             (case report_loop ev screenshotPaths anns outputDir 0 w2 of
                (Inl err, w3) \<Rightarrow> (Inl err, w3)
              | (Inr u, w3) \<Rightarrow>
                  (case write_file_sync ev (path_join outputDir ''workflow_summary.md'')
                          (Some summary) w3 of
                     (Inl err, w4) \<Rightarrow> (Inl err, w4)
                   | (Inr u, w4) \<Rightarrow>
                       (let (stamp, w5) = new_date_locale ev w4
                        in case write_file_sync ev (path_join outputDir ''index.html'')
                                  (Some (indexHtml stamp summary screenshotPaths)) w5 of
                             (Inl err, w6) \<Rightarrow> (Inl err, w6)
                           | (Inr u, w6) \<Rightarrow>
                               (Inr (), console_log (''Reports created successfully in '' @ outputDir) w6)))))"

text \<open>The function: its \<^verbatim>\<open>catch\<close> prints the error and returns (lines 240 to 242).\<close>

definition createReports :: "env \<Rightarrow> string list \<Rightarrow> string list \<Rightarrow> string \<Rightarrow> string \<Rightarrow> world \<Rightarrow> world" where
  "createReports ev screenshotPaths anns summary outputDir w =
     (case createReports_try ev screenshotPaths anns summary outputDir w of
        (Inr u, w') \<Rightarrow> w'
      | (Inl err, w') \<Rightarrow> console_error (''Error creating reports: '' @ err) w')"

subsection \<open>main, from the capture loop on (lines 380 to 451)\<close>

text \<open>
  The lines of \<^verbatim>\<open>main\<close> before the capture loop read the options and drive the browser to
  the workflow; they are taken to have returned. \<open>numScreenshots\<close> and
  \<open>screenshotIntervalMs\<close> are the integers \<^verbatim>\<open>parseInt\<close> gave.
\<close>

definition main_try ::
  "env \<Rightarrow> string \<Rightarrow> string \<Rightarrow> int \<Rightarrow> int \<Rightarrow> world \<Rightarrow> (error + unit) \<times> world" where
  "main_try ev screenshotsDir outputDir numScreenshots screenshotIntervalMs w =
     (case capture_loop ev screenshotsDir numScreenshots screenshotIntervalMs 0 [] w of
        (Inl err, w1) \<Rightarrow> (Inl err, w1)
      | (Inr screenshotPaths, w1) \<Rightarrow>
          (let w2 = console_log ''All screenshots taken. Now evaluating with Claude...'' w1;
               ((anns, summary), w3) = evaluateScreenshotsWithClaude ev screenshotPaths outputDir w2;
               w4 = createReports ev screenshotPaths anns summary outputDir w3;
               w5 = console_log ''Analysis complete. Results saved to:'' w4;
               w6 = console_log (''- Conversation Log: '' @ path_join outputDir ''conversation_log.md'') w5;
               w7 = console_log (''- Workflow Summary: '' @ path_join outputDir ''workflow_summary.md'') w6;
               w8 = console_log (''- HTML Report: '' @ path_join outputDir ''index.html'') w7
           in (Inr (), w8)))"

text \<open>
  The \<^verbatim>\<open>catch\<close> of \<^verbatim>\<open>main\<close>: it prints the error, takes one more screenshot and
  throws the error again (an error of that last screenshot is thrown in its place).
\<close>

definition main :: "env \<Rightarrow> string \<Rightarrow> string \<Rightarrow> int \<Rightarrow> int \<Rightarrow> world \<Rightarrow> (error + unit) \<times> world" where
  "main ev screenshotsDir outputDir numScreenshots screenshotIntervalMs w =
     (case main_try ev screenshotsDir outputDir numScreenshots screenshotIntervalMs w of
        (Inr u, w1) \<Rightarrow> (Inr (), w1)
      | (Inl err, w1) \<Rightarrow>
          (case page_screenshot ev ''error-screenshot.png''
                  (console_error (''Test failed: '' @ err) w1) of
             (Inl err2, w2) \<Rightarrow> (Inl err2, w2)
           | (Inr u, w2) \<Rightarrow> (Inl err, w2)))"
section \<open>Observers of a run\<close>

text \<open>The events a run adds to the trace of the world it starts in.\<close>

definition added :: "world \<Rightarrow> world \<Rightarrow> event list" where
  "added w w' = drop (length (trace w)) (trace w')"


fun is_timing :: "event \<Rightarrow> bool" where
  "is_timing (PageScreenshot p r) = True"
| "is_timing (WaitForTimeout t) = True"
| "is_timing e = False"

text \<open>The captures and the waits of a trace, in order.\<close>

definition timing :: "event list \<Rightarrow> event list" where
  "timing tr = filter is_timing tr"


text \<open>\<open>intersperse s xs\<close> puts \<open>s\<close> between every two neighbours of \<open>xs\<close>, and nowhere else.\<close>

fun intersperse :: "'a \<Rightarrow> 'a list \<Rightarrow> 'a list" where
  "intersperse s [] = []"
| "intersperse s [x] = [x]"
| "intersperse s (x # y # ys) = x # s # intersperse s (y # ys)"




text \<open>The file operations of a trace that succeeded, in order, and the test for one that failed.\<close>

definition fs_done :: "event list \<Rightarrow> fs_op list" where
  "fs_done tr = concat (map (\<lambda>e. case e of Fs op None \<Rightarrow> [op] | _ \<Rightarrow> []) tr)"

fun is_fs_failure :: "event \<Rightarrow> bool" where
  "is_fs_failure (Fs op (Some e)) = True"
| "is_fs_failure e = False"

text \<open>
  What a run that threw \<open>e\<close> may have added to the trace: no failed file operation, except
  that the last event may be the file operation that threw \<open>e\<close>.
\<close>

definition stops_at_failure :: "error + 'a \<Rightarrow> event list \<Rightarrow> bool" where
  "stops_at_failure r new =
     (case r of
        Inr u \<Rightarrow> list_all (\<lambda>x. \<not> is_fs_failure x) new
      | Inl e \<Rightarrow> list_all (\<lambda>x. \<not> is_fs_failure x) new
                 \<or> (new \<noteq> [] \<and> list_all (\<lambda>x. \<not> is_fs_failure x) (butlast new)
                     \<and> (\<exists>op. last new = Fs op (Some e))))"





text \<open>The calls of the chat model in a trace, each with what it was given and what it gave.\<close>

definition chat_calls :: "event list \<Rightarrow> (message list \<times> (error + string)) list" where
  "chat_calls tr = concat (map (\<lambda>e. case e of ModelCall m r \<Rightarrow> [(m, r)] | _ \<Rightarrow> []) tr)"

text \<open>The images read in a trace: the path and the content that was read.\<close>

definition images_read :: "event list \<Rightarrow> (string \<times> string) list" where
  "images_read tr = concat (map (\<lambda>e. case e of ReadFileSync p (Inr b) \<Rightarrow> [(p, b)] | _ \<Rightarrow> []) tr)"

datatype role = System | User | Assistant

fun role_of :: "message \<Rightarrow> role" where
  "role_of (SystemMessage c) = System"
| "role_of (HumanMessage c) = User"
| "role_of (AIMessage c) = Assistant"

text \<open>The text of the prompt in a turn of the user.\<close>

fun prompt_of :: "message \<Rightarrow> string option" where
  "prompt_of (HumanMessage (Parts (TextPart t # rest))) = Some t"
| "prompt_of (HumanMessage (Str t)) = Some t"
| "prompt_of m = None"

text \<open>
  \<open>linked m cs\<close>: the calls \<open>cs\<close> continue the conversation \<open>m\<close>. Each call is given the
  conversation so far and one new turn of the user; after a call that failed there is no
  other call; after a call that replied, the conversation so far is what the call was given
  and then its reply.
\<close>

fun linked :: "message list \<Rightarrow> (message list \<times> (error + string)) list \<Rightarrow> bool" where
  "linked m [] = True"
| "linked m ((m', r) # cs) =
     (length m' = Suc (length m) \<and> butlast m' = m \<and> role_of (last m') = User
      \<and> (case r of Inl e \<Rightarrow> cs = [] | Inr a \<Rightarrow> linked (m' @ [AIMessage (Str a)]) cs))"

text \<open>
  \<open>loop_calls i m bs cs\<close>: the same for the calls of the loop from index \<open>i\<close> on, where the
  new turn of the \<open>k\<close>-th call is the turn for the screenshot \<open>i + k\<close> with the image
  \<open>bs ! k\<close>.
\<close>

fun loop_calls :: "nat \<Rightarrow> message list \<Rightarrow> string list \<Rightarrow> (message list \<times> (error + string)) list \<Rightarrow> bool" where
  "loop_calls i m [] cs = (cs = [])"
| "loop_calls i m (b # bs) [] = False"
| "loop_calls i m (b # bs) ((m', r) # cs) =
     (m' = m @ [user_turn i b]
      \<and> (case r of Inl e \<Rightarrow> cs = [] \<and> bs = []
                  | Inr a \<Rightarrow> loop_calls (Suc i) (m' @ [AIMessage (Str a)]) bs cs))"

text \<open>The conversation after the calls \<open>cs\<close>, which continue \<open>m\<close>.\<close>

fun conv_end :: "message list \<Rightarrow> (message list \<times> (error + string)) list \<Rightarrow> message list" where
  "conv_end m [] = m"
| "conv_end m ((m', r) # cs) =
     conv_end (case r of Inl e \<Rightarrow> m' | Inr a \<Rightarrow> m' @ [AIMessage (Str a)]) cs"

text \<open>
  What a run of the loop from index \<open>i\<close> adds, where \<open>r\<close> is what it returns, \<open>new\<close> its
  events and \<open>bs\<close> the images it sent: its calls continue the conversation it starts with,
  one call for each image it read, and no file is written; when it returns normally it has
  made a call for every remaining screenshot, the conversation it holds is the one after
  the calls, and the annotations it added are the replies, in order.
\<close>

definition loop_run :: "string list \<Rightarrow> nat \<Rightarrow> locals \<Rightarrow> error + locals \<Rightarrow> event list \<Rightarrow> string list \<Rightarrow> bool" where
  "loop_run ps i loc r new bs =
     (loop_calls i (messages loc) bs (chat_calls new)
      \<and> images_read new = zip (drop i ps) bs
      \<and> length bs \<le> length ps - i
      \<and> fs_done new = []
      \<and> (\<forall>loc'. r = Inr loc' \<longrightarrow>
            length bs = length ps - i
            \<and> messages loc' = conv_end (messages loc) (chat_calls new)
            \<and> (\<exists>as. annotations loc' = annotations loc @ as
                      \<and> map snd (chat_calls new) = map Inr as)))"

text \<open>
  What a run of the \<^verbatim>\<open>try\<close> block of the analysis adds, where \<open>r\<close> is what it returns,
  \<open>new\<close> its events, \<open>bs\<close> the images it sent, \<open>lc\<close> the calls of its loop and \<open>rest\<close> the
  call for the summary, if it came to it.
\<close>

definition analysis_run ::
  "string list \<Rightarrow> error + locals \<times> string \<Rightarrow> event list \<Rightarrow> string list
   \<Rightarrow> (message list \<times> (error + string)) list \<Rightarrow> (message list \<times> (error + string)) list \<Rightarrow> bool" where
  "analysis_run ps r new bs lc rest =
     (chat_calls new = lc @ rest
      \<and> loop_calls 0 [SystemMessage (Str system_prompt)] bs lc
      \<and> linked [SystemMessage (Str system_prompt)] (lc @ rest)
      \<and> images_read new = zip ps bs
      \<and> (rest \<noteq> [] \<longrightarrow> length lc = length ps)
      \<and> (\<forall>loc summary. r = Inr (loc, summary) \<longrightarrow>
            length lc = length ps
            \<and> map snd lc = map Inr (annotations loc)
            \<and> rest = [(messages loc, Inr summary)]
            \<and> messages loc = conv_end [SystemMessage (Str system_prompt)] lc
                               @ [HumanMessage (Str summary_prompt)]))"

text \<open>The conversation the \<^verbatim>\<open>try\<close> block of the analysis holds when it returns normally.\<close>

definition final_conversation :: "error + locals \<times> string \<Rightarrow> message list option" where
  "final_conversation r = (case r of Inr (loc, summary) \<Rightarrow> Some (messages loc) | Inl e \<Rightarrow> None)"

section \<open>Example environments\<close>

text \<open>An environment in which every call succeeds, and the world a run starts in.\<close>

definition env_ok :: env where
  "env_ok = \<lparr>date_locale_string = (\<lambda>tr. ''1/1/2025, 12:00:00 PM''),
             date_iso_string = (\<lambda>tr. ''2025-01-01T12:00:00.000Z''),
             screenshot_outcome = (\<lambda>tr p. None),
             read_outcome = (\<lambda>tr p. Inr ''aGk=''),
             chat_outcome = (\<lambda>tr msgs. Inr (''reply '' @ show_nat (length msgs))),
             exists_outcome = (\<lambda>tr p. True),
             fs_outcome = (\<lambda>tr op. None)\<rparr>"

definition w_init :: world where
  "w_init = \<lparr>trace = [], console = []\<rparr>"



text \<open>A disk that is full after two file operations.\<close>

definition env_disk_fills :: env where
  "env_disk_fills = env_ok\<lparr>fs_outcome :=
     (\<lambda>tr op. if length (fs_done tr) < 2 then None else Some ''Error: ENOSPC'')\<rparr>"

text \<open>A chat model that is down.\<close>

definition env_chat_down :: env where
  "env_chat_down = env_ok\<lparr>chat_outcome := (\<lambda>tr msgs. Inl ''Error: overloaded'')\<rparr>"
section \<open>Basic facts\<close>

lemma trace_emit [simp]: "trace (emit e w) = trace w @ [e]"
  by (simp add: emit_def)

lemma console_emit [simp]: "console (emit e w) = console w"
  by (simp add: emit_def)

lemma trace_console_log [simp]: "trace (console_log s w) = trace w"
  by (simp add: console_log_def)

lemma console_console_log [simp]: "console (console_log s w) = console w @ [ConsoleLog s]"
  by (simp add: console_log_def)

lemma trace_console_error [simp]: "trace (console_error s w) = trace w"
  by (simp add: console_error_def)

lemma console_console_error [simp]: "console (console_error s w) = console w @ [ConsoleError s]"
  by (simp add: console_error_def)

lemma trace_wait [simp]: "trace (wait_for_timeout ms w) = trace w @ [WaitForTimeout ms]"
  by (simp add: wait_for_timeout_def)

lemma console_wait [simp]: "console (wait_for_timeout ms w) = console w"
  by (simp add: wait_for_timeout_def)

lemma added_append: "trace w' = trace w @ new \<Longrightarrow> added w w' = new"
  by (simp add: added_def)

lemma added_self [simp]: "added w w = []"
  by (simp add: added_def)

lemma page_screenshot_None:
  "screenshot_outcome ev (trace w) p = None \<Longrightarrow>
   page_screenshot ev p w = (Inr (), emit (PageScreenshot p None) w)"
  by (simp add: page_screenshot_def)


lemma trace_page_screenshot:
  "trace (snd (page_screenshot ev p w)) = trace w @ [PageScreenshot p (screenshot_outcome ev (trace w) p)]"
  by (simp add: page_screenshot_def Let_def split: option.splits)

lemma console_page_screenshot [simp]: "console (snd (page_screenshot ev p w)) = console w"
  by (simp add: page_screenshot_def Let_def split: option.splits)

lemma intersperse_Cons: "xs \<noteq> [] \<Longrightarrow> intersperse s (x # xs) = x # s # intersperse s xs"
  by (cases xs) simp_all

section \<open>The capture loop\<close>

text \<open>One attempt that succeeds ends the retry loop.\<close>

lemma screenshot_retry_first_ok:
  assumes "screenshot_outcome ev (trace w) p = None"
  shows "\<exists>w'. screenshot_retry ev i n p 3 w = (Inr (), w')
           \<and> trace w' = trace w @ [PageScreenshot p None]"
  by (subst screenshot_retry.simps) (simp add: page_screenshot_None assms)


text \<open>
  When no capture fails, the loop from index \<open>i\<close> adds one path for each remaining index, and
  its captures and waits are the captures with one wait between neighbours.
\<close>

lemma capture_loop_all_ok:
  assumes ok: "\<forall>tr p. screenshot_outcome ev tr p = None"
  shows "\<exists>qs w' new. capture_loop ev d n t i ps w = (Inr (ps @ qs), w')
           \<and> length qs = nat (n - int i)
           \<and> (\<forall>k<length qs. \<exists>stamp. qs ! k = path_join d (screenshot_name (i + k) stamp))
           \<and> trace w' = trace w @ new
           \<and> timing new = intersperse (WaitForTimeout t) (map (\<lambda>q. PageScreenshot q None) qs)"
proof (induction "nat (n - int i)" arbitrary: i ps w)
  case 0
  then have "\<not> int i < n" by simp
  then have "capture_loop ev d n t i ps w = (Inr ps, w)"
    by (subst capture_loop.simps) simp
  with 0 show ?case by (simp add: timing_def)
next
  case (Suc m)
  then have lt: "int i < n" by linarith
  define stamp where "stamp = date_iso_string ev (trace w)"
  define q where "q = path_join d (screenshot_name i stamp)"
  define w2 where "w2 = console_log (''Taking screenshot '' @ show_nat (i + 1) @ ''/''
                    @ show_int n @ ''...'') (emit NewDate w)"
  have "screenshot_outcome ev (trace w2) q = None"
    using ok by simp
  from screenshot_retry_first_ok [OF this, of i n]
  obtain w3 where r: "screenshot_retry ev i n q 3 w2 = (Inr (), w3)"
    and t3: "trace w3 = trace w2 @ [PageScreenshot q None]"
    by blast
  define w4 where "w4 = (if int i < n - 1 then
                     wait_for_timeout t
                       (console_log (''Waiting '' @ show_int t
                          @ ''ms before taking next screenshot...'') w3)
                   else w3)"
  have unfold: "capture_loop ev d n t i ps w = capture_loop ev d n t (i + 1) (ps @ [q]) w4"
    using r lt unfolding w4_def w2_def q_def stamp_def
    by (subst capture_loop.simps) (simp add: new_date_iso_def Let_def)
  have m: "m = nat (n - int (i + 1))" using Suc.hyps(2) by linarith
  obtain qs w' new where
    run: "capture_loop ev d n t (i + 1) (ps @ [q]) w4 = (Inr ((ps @ [q]) @ qs), w')"
    and len: "length qs = nat (n - int (i + 1))"
    and names: "\<forall>k<length qs. \<exists>stamp. qs ! k = path_join d (screenshot_name (i + 1 + k) stamp)"
    and tr: "trace w' = trace w4 @ new"
    and tm: "timing new = intersperse (WaitForTimeout t) (map (\<lambda>q. PageScreenshot q None) qs)"
    using Suc.hyps(1) [OF m, of "ps @ [q]" w4] by blast
  have t4: "trace w4 = trace w @ NewDate # PageScreenshot q None
                # (if int i < n - 1 then [WaitForTimeout t] else [])"
    by (simp add: w4_def t3 w2_def)
  have e: "(qs = []) = (\<not> int i < n - 1)"
    using len lt by (cases qs) auto
  have "timing (NewDate # PageScreenshot q None
                # (if int i < n - 1 then [WaitForTimeout t] else []) @ new)
        = intersperse (WaitForTimeout t) (map (\<lambda>q. PageScreenshot q None) (q # qs))"
    using tm e by (cases qs) (auto simp: timing_def)
  moreover have "\<forall>k<length (q # qs). \<exists>stamp. (q # qs) ! k = path_join d (screenshot_name (i + k) stamp)"
  proof (intro allI impI)
    fix k assume "k < length (q # qs)"
    then show "\<exists>stamp. (q # qs) ! k = path_join d (screenshot_name (i + k) stamp)"
      using names by (cases k) (auto simp: q_def)
  qed
  moreover have "length (q # qs) = nat (n - int i)"
    using len lt by simp
  ultimately show ?case
    unfolding unfold run using tr t4
    by (intro exI [of _ "q # qs"] exI [of _ w']
          exI [of _ "NewDate # PageScreenshot q None
                # (if int i < n - 1 then [WaitForTimeout t] else []) @ new"]) simp
qed



section \<open>The report\<close>

lemma fs_do_None:
  "fs_outcome ev (trace w) op = None \<Longrightarrow> fs_do ev op w = (Inr (), emit (Fs op None) w)"
  by (simp add: fs_do_def)

lemma fs_do_Some:
  "fs_outcome ev (trace w) op = Some e \<Longrightarrow> fs_do ev op w = (Inl e, emit (Fs op (Some e)) w)"
  by (simp add: fs_do_def)

lemma fs_done_append [simp]: "fs_done (xs @ ys) = fs_done xs @ fs_done ys"
  by (simp add: fs_done_def)

lemma fs_done_simps [simp]:
  "fs_done [] = []"
  "fs_done (Fs op None # tr) = op # fs_done tr"
  "fs_done (Fs op (Some e) # tr) = fs_done tr"
  "fs_done (NewDate # tr) = fs_done tr"
  "fs_done (ExistsSync p b # tr) = fs_done tr"
  "fs_done (ReadFileSync p x # tr) = fs_done tr"
  "fs_done (ModelCall m y # tr) = fs_done tr"
  "fs_done (PageScreenshot p z # tr) = fs_done tr"
  "fs_done (WaitForTimeout ms # tr) = fs_done tr"
  by (simp_all add: fs_done_def)


text \<open>The outcome of a file operation, both ways, as one fact about the trace.\<close>

lemma fs_do_trace:
  "\<exists>new. trace (snd (fs_do ev op w)) = trace w @ new \<and> stops_at_failure (fst (fs_do ev op w)) new
     \<and> console (snd (fs_do ev op w)) = console w"
  by (cases "fs_outcome ev (trace w) op")
     (simp_all add: fs_do_None fs_do_Some stops_at_failure_def)

lemma write_file_sync_trace:
  "\<exists>new. trace (snd (write_file_sync ev p data w)) = trace w @ new
     \<and> stops_at_failure (fst (write_file_sync ev p data w)) new
     \<and> console (snd (write_file_sync ev p data w)) = console w"
proof (cases data)
  case None
  then show ?thesis by (simp add: write_file_sync_def stops_at_failure_def)
next
  case (Some d)
  then show ?thesis using fs_do_trace [of ev "WriteFileSync p d" w]
    by (simp add: write_file_sync_def)
qed

text \<open>Running on after a step that did not throw keeps the shape of the trace.\<close>

lemma stops_at_failure_append:
  assumes "list_all (\<lambda>x. \<not> is_fs_failure x) new1" and "stops_at_failure r new2"
  shows "stops_at_failure r (new1 @ new2)"
proof (cases r)
  case (Inr u)
  then show ?thesis using assms by (simp add: stops_at_failure_def)
next
  case (Inl e)
  show ?thesis
  proof (cases "new2 = []")
    case True
    then show ?thesis using assms Inl by (simp add: stops_at_failure_def)
  next
    case False
    then show ?thesis using assms Inl
      by (auto simp: stops_at_failure_def butlast_append)
  qed
qed

lemma stops_at_failure_Inr: "stops_at_failure (Inr u) new = list_all (\<lambda>x. \<not> is_fs_failure x) new"
  by (simp add: stops_at_failure_def)

text \<open>From the shape of the trace: a failed file operation is the last event, and its error is thrown.\<close>

lemma stops_at_failure_last:
  assumes "stops_at_failure r new" and "new = pre @ Fs op (Some e) # post"
  shows "post = [] \<and> r = Inl e"
proof (cases r)
  case (Inr u)
  then show ?thesis using assms by (simp add: stops_at_failure_def)
next
  case (Inl e')
  have nc: "\<not> list_all (\<lambda>x. \<not> is_fs_failure x) new"
    using assms(2) by simp
  then have b: "list_all (\<lambda>x. \<not> is_fs_failure x) (butlast new)"
    and l: "\<exists>op'. last new = Fs op' (Some e')"
    using assms(1) Inl by (auto simp: stops_at_failure_def)
  have p: "post = []"
  proof (rule ccontr)
    assume "post \<noteq> []"
    then have "butlast new = pre @ Fs op (Some e) # butlast post"
      using assms(2) by (simp add: butlast_append)
    then show False using b by simp
  qed
  then have "last new = Fs op (Some e)" using assms(2) by simp
  then show ?thesis using l p Inl by auto
qed

text \<open>The loop of \<^verbatim>\<open>createReports\<close>, in any environment.\<close>

lemma report_loop_any:
  "\<exists>new. trace (snd (report_loop ev ps anns out i w)) = trace w @ new
     \<and> stops_at_failure (fst (report_loop ev ps anns out i w)) new"
proof (induction "length ps - i" arbitrary: i w)
  case 0
  then have "report_loop ev ps anns out i w = (Inr (), w)"
    by (subst report_loop.simps) simp
  then show ?case by (simp add: stops_at_failure_def)
next
  case (Suc m)
  then have lt: "i < length ps" by linarith
  define c where "c = fs_do ev (CopyFileSync (ps ! i) (path_join out (basename (ps ! i)))) w"
  obtain new1 where c1: "trace (snd c) = trace w @ new1" and c2: "stops_at_failure (fst c) new1"
    using fs_do_trace [of ev _ w] unfolding c_def by blast
  show ?case
  proof (cases "fst c")
    case (Inl e)
    then have "report_loop ev ps anns out i w = (Inl e, snd c)"
      using lt unfolding c_def
      by (subst report_loop.simps) (auto simp: Let_def split: prod.splits)
    then show ?thesis using c1 c2 Inl by auto
  next
    case (Inr u)
    note copied = this
    define a where "a = write_file_sync ev (path_join out (annotation_name (basename (ps ! i))))
                          (js_index anns i) (snd c)"
    obtain new2 where a1: "trace (snd a) = trace (snd c) @ new2"
      and a2: "stops_at_failure (fst a) new2"
      using write_file_sync_trace [of ev _ _ "snd c"] unfolding a_def by blast
    have k1: "list_all (\<lambda>x. \<not> is_fs_failure x) new1"
      using c2 copied by (simp add: stops_at_failure_def)
    show ?thesis
    proof (cases "fst a")
      case (Inl e)
      then have "report_loop ev ps anns out i w = (Inl e, snd a)"
        using lt copied unfolding a_def c_def
        by (subst report_loop.simps) (auto simp: Let_def split: prod.splits)
      moreover have "stops_at_failure (fst a) (new1 @ new2)"
        using stops_at_failure_append [OF k1 a2] .
      ultimately show ?thesis using c1 a1 Inl by auto
    next
      case (Inr u')
      define w3 where "w3 = console_log (''Saved screenshot and annotation for '' @ basename (ps ! i)) (snd a)"
      have unfold: "report_loop ev ps anns out i w = report_loop ev ps anns out (i + 1) w3"
        using lt copied Inr unfolding w3_def a_def c_def
        by (subst report_loop.simps) (auto simp: Let_def split: prod.splits)
      have m: "m = length ps - (i + 1)" using Suc.hyps(2) by linarith
      obtain new3 where r1: "trace (snd (report_loop ev ps anns out (i + 1) w3)) = trace w3 @ new3"
        and r2: "stops_at_failure (fst (report_loop ev ps anns out (i + 1) w3)) new3"
        using Suc.hyps(1) [OF m, of w3] by blast
      have k2: "list_all (\<lambda>x. \<not> is_fs_failure x) new2"
        using a2 Inr by (simp add: stops_at_failure_def)
      have "stops_at_failure (fst (report_loop ev ps anns out (i + 1) w3)) ((new1 @ new2) @ new3)"
        using stops_at_failure_append [of "new1 @ new2"] k1 k2 r2 by simp
      moreover have "trace (snd (report_loop ev ps anns out (i + 1) w3)) = trace w @ (new1 @ new2) @ new3"
        using r1 a1 c1 by (simp add: w3_def)
      ultimately show ?thesis unfolding unfold by blast
    qed
  qed
qed


text \<open>\<^verbatim>\<open>createReports\<close>, in any environment.\<close>

lemma createReports_try_any:
  "\<exists>new. trace (snd (createReports_try ev ps anns s out w)) = trace w @ new
     \<and> stops_at_failure (fst (createReports_try ev ps anns s out w)) new"
proof -
  define there where "there = exists_outcome ev (trace w) out"
  define w1 where "w1 = emit (ExistsSync out there) (console_log ''Creating reports...'' w)"
  obtain r2 w2 where mk: "(if \<not> there then fs_do ev (MkdirSync out) w1 else (Inr (), w1)) = (r2, w2)"
    by (cases "if \<not> there then fs_do ev (MkdirSync out) w1 else (Inr (), w1)")
  obtain n2 where t2: "trace w2 = trace w1 @ n2" and s2: "stops_at_failure r2 n2"
    using fs_do_trace [of ev "MkdirSync out" w1] mk
    by (cases there) (auto simp: stops_at_failure_def)
  obtain r3 w3 where lp: "report_loop ev ps anns out 0 w2 = (r3, w3)"
    by (cases "report_loop ev ps anns out 0 w2")
  obtain n3 where t3: "trace w3 = trace w2 @ n3" and s3: "stops_at_failure r3 n3"
    using report_loop_any [of ev ps anns out 0 w2] lp by auto
  obtain r4 w4 where sm: "write_file_sync ev (path_join out ''workflow_summary.md'') (Some s) w3 = (r4, w4)"
    by (cases "write_file_sync ev (path_join out ''workflow_summary.md'') (Some s) w3")
  obtain n4 where t4: "trace w4 = trace w3 @ n4" and s4: "stops_at_failure r4 n4"
    using write_file_sync_trace [of ev "path_join out ''workflow_summary.md''" "Some s" w3]
    unfolding sm by auto
  define doc where "doc = indexHtml (date_locale_string ev (trace w4)) s ps"
  obtain r6 w6 where ix: "write_file_sync ev (path_join out ''index.html'') (Some doc) (emit NewDate w4) = (r6, w6)"
    by (cases "write_file_sync ev (path_join out ''index.html'') (Some doc) (emit NewDate w4)")
  obtain n6 where t6: "trace w6 = trace w4 @ NewDate # n6" and s6: "stops_at_failure r6 n6"
    using write_file_sync_trace [of ev "path_join out ''index.html''" "Some doc" "emit NewDate w4"]
    unfolding ix by auto
  have unfold: "createReports_try ev ps anns s out w =
      (case r2 of Inl e \<Rightarrow> (Inl e, w2) | Inr u \<Rightarrow>
       case r3 of Inl e \<Rightarrow> (Inl e, w3) | Inr u \<Rightarrow>
       case r4 of Inl e \<Rightarrow> (Inl e, w4) | Inr u \<Rightarrow>
       case r6 of Inl e \<Rightarrow> (Inl e, w6) | Inr u \<Rightarrow>
         (Inr (), console_log (''Reports created successfully in '' @ out) w6))"
    using mk lp sm ix unfolding doc_def w1_def there_def
    by (cases "exists_outcome ev (trace w) out")
       (auto simp: createReports_try_def Let_def exists_sync_def new_date_locale_def
          split: sum.splits)
  have t1: "trace w1 = trace w @ [ExistsSync out there]"
    by (simp add: w1_def)
  show ?thesis
  proof (cases r2)
    case (Inl e)
    then show ?thesis
      using unfold t1 t2 s2 stops_at_failure_append [of "[ExistsSync out there]" r2 n2]
      by simp
  next
    case r2: (Inr u2)
    then have k2: "list_all (\<lambda>x. \<not> is_fs_failure x) ([ExistsSync out there] @ n2)"
      using s2 by (simp add: stops_at_failure_Inr)
    show ?thesis
    proof (cases r3)
      case (Inl e)
      then show ?thesis
        using unfold r2 t1 t2 t3 stops_at_failure_append [OF k2 s3] by simp
    next
      case r3: (Inr u3)
      then have k3: "list_all (\<lambda>x. \<not> is_fs_failure x) (([ExistsSync out there] @ n2) @ n3)"
        using s3 k2 by (simp add: stops_at_failure_Inr)
      show ?thesis
      proof (cases r4)
        case (Inl e)
        then show ?thesis
          using unfold r2 r3 t1 t2 t3 t4 stops_at_failure_append [OF k3 s4] by simp
      next
        case r4: (Inr u4)
        then have k4: "list_all (\<lambda>x. \<not> is_fs_failure x)
                         (((([ExistsSync out there] @ n2) @ n3) @ n4) @ [NewDate])"
          using s4 k3 by (simp add: stops_at_failure_Inr)
        show ?thesis
        proof (cases r6)
          case (Inl e)
          then show ?thesis
            using unfold r2 r3 r4 t1 t2 t3 t4 t6 stops_at_failure_append [OF k4 s6] by simp
        next
          case (Inr u6)
          then show ?thesis
            using unfold r2 r3 r4 t1 t2 t3 t4 t6 stops_at_failure_append [OF k4 s6] by simp
        qed
      qed
    qed
  qed
qed








lemma length_index_items [simp]: "length (index_items ps) = length ps"
  by (simp add: index_items_def)

section \<open>The analysis\<close>

lemma chat_calls_append [simp]: "chat_calls (xs @ ys) = chat_calls xs @ chat_calls ys"
  by (simp add: chat_calls_def)

lemma chat_calls_simps [simp]:
  "chat_calls [] = []"
  "chat_calls (ModelCall m r # tr) = (m, r) # chat_calls tr"
  "chat_calls (ReadFileSync p x # tr) = chat_calls tr"
  "chat_calls (NewDate # tr) = chat_calls tr"
  "chat_calls (Fs op y # tr) = chat_calls tr"
  by (simp_all add: chat_calls_def)

lemma images_read_append [simp]: "images_read (xs @ ys) = images_read xs @ images_read ys"
  by (simp add: images_read_def)

lemma images_read_simps [simp]:
  "images_read [] = []"
  "images_read (ReadFileSync p (Inr b) # tr) = (p, b) # images_read tr"
  "images_read (ReadFileSync p (Inl e) # tr) = images_read tr"
  "images_read (ModelCall m r # tr) = images_read tr"
  "images_read (NewDate # tr) = images_read tr"
  "images_read (Fs op y # tr) = images_read tr"
  by (simp_all add: images_read_def)

text \<open>The three ways the body of the loop can go.\<close>

lemma eval_step_read_fail:
  assumes "read_outcome ev (trace w) (ps ! i) = Inl e"
  shows "\<exists>w'. eval_step ev ps i loc w = (Inl e, w')
           \<and> trace w' = trace w @ [ReadFileSync (ps ! i) (Inl e)]"
  using assms by (simp add: eval_step_def imageToBase64_def Let_def)

lemma eval_step_chat_fail:
  assumes "read_outcome ev (trace w) (ps ! i) = Inr b"
    and "chat_outcome ev (trace w @ [ReadFileSync (ps ! i) (Inr b)]) (messages loc @ [user_turn i b]) = Inl e"
  shows "\<exists>w'. eval_step ev ps i loc w = (Inl e, w')
           \<and> trace w' = trace w @ [ReadFileSync (ps ! i) (Inr b),
                                    ModelCall (messages loc @ [user_turn i b]) (Inl e)]"
  using assms by (simp add: eval_step_def imageToBase64_def model_call_def Let_def)

lemma eval_step_ok:
  assumes "read_outcome ev (trace w) (ps ! i) = Inr b"
    and "chat_outcome ev (trace w @ [ReadFileSync (ps ! i) (Inr b)]) (messages loc @ [user_turn i b]) = Inr a"
  shows "\<exists>w' loc'. eval_step ev ps i loc w = (Inr loc', w')
           \<and> messages loc' = messages loc @ [user_turn i b, AIMessage (Str a)]
           \<and> annotations loc' = annotations loc @ [a]
           \<and> trace w' = trace w @ [ReadFileSync (ps ! i) (Inr b),
                                    ModelCall (messages loc @ [user_turn i b]) (Inr a), NewDate]"
  using assms
  by (simp add: eval_step_def imageToBase64_def model_call_def new_date_locale_def Let_def)

text \<open>One more turn of the loop in front of a run from the next index.\<close>

lemma loop_run_step:
  assumes lt: "i < length ps"
    and m1: "messages loc1 = messages loc @ [user_turn i b, AIMessage (Str a)]"
    and a1: "annotations loc1 = annotations loc @ [a]"
    and run: "loop_run ps (Suc i) loc1 r new bs"
  shows "loop_run ps i loc r
           ([ReadFileSync (ps ! i) (Inr b), ModelCall (messages loc @ [user_turn i b]) (Inr a), NewDate]
              @ new) (b # bs)"
proof -
  let ?m = "messages loc @ [user_turn i b]"
  let ?new = "[ReadFileSync (ps ! i) (Inr b), ModelCall ?m (Inr a), NewDate] @ new"
  have cc: "chat_calls ?new = (?m, Inr a) # chat_calls new" by simp
  have dr: "drop i ps = ps ! i # drop (Suc i) ps"
    using lt by (simp add: Cons_nth_drop_Suc)
  have r1: "loop_calls (Suc i) (messages loc1) bs (chat_calls new)"
    and r2: "images_read new = zip (drop (Suc i) ps) bs"
    and r3: "length bs \<le> length ps - Suc i"
    and r4: "fs_done new = []"
    and r5: "\<forall>loc'. r = Inr loc' \<longrightarrow>
            length bs = length ps - Suc i
            \<and> messages loc' = conv_end (messages loc1) (chat_calls new)
            \<and> (\<exists>as. annotations loc' = annotations loc1 @ as
                      \<and> map snd (chat_calls new) = map Inr as)"
    using run unfolding loop_run_def by blast+
  have c1: "loop_calls i (messages loc) (b # bs) (chat_calls ?new)"
    unfolding cc using r1 by (simp add: m1)
  have c2: "images_read ?new = zip (drop i ps) (b # bs)"
    by (subst dr) (simp add: r2)
  have c3: "length (b # bs) \<le> length ps - i"
    using r3 lt by simp
  have c4: "fs_done ?new = []"
    using r4 by simp
  have c5: "length (b # bs) = length ps - i
            \<and> messages loc' = conv_end (messages loc) (chat_calls ?new)
            \<and> (\<exists>as. annotations loc' = annotations loc @ as
                      \<and> map snd (chat_calls ?new) = map Inr as)"
    if ok: "r = Inr loc'" for loc'
  proof -
    from r5 ok obtain as where l: "length bs = length ps - Suc i"
      and c: "messages loc' = conv_end (messages loc1) (chat_calls new)"
      and an: "annotations loc' = annotations loc1 @ as"
      and rp: "map snd (chat_calls new) = map Inr as" by blast
    have "length (b # bs) = length ps - i" using l lt by simp
    moreover have "messages loc' = conv_end (messages loc) (chat_calls ?new)"
      unfolding cc c by (simp add: m1)
    moreover have "annotations loc' = annotations loc @ (a # as)"
      by (simp add: an a1)
    moreover have "map snd (chat_calls ?new) = map Inr (a # as)"
      unfolding cc by (simp add: rp)
    ultimately show ?thesis by blast
  qed
  show ?thesis
    unfolding loop_run_def using c1 c2 c3 c4 c5 by blast
qed

text \<open>The loop from index \<open>i\<close>, in any environment.\<close>

lemma eval_loop_run:
  "\<exists>new bs. trace (snd (eval_loop ev ps i loc w)) = trace w @ new
     \<and> loop_run ps i loc (fst (eval_loop ev ps i loc w)) new bs"
proof (induction "length ps - i" arbitrary: i loc w)
  case 0
  then have "eval_loop ev ps i loc w = (Inr loc, w)"
    by (subst eval_loop.simps) simp
  moreover have "loop_run ps i loc (Inr loc) [] []"
    using 0 by (simp add: loop_run_def)
  ultimately show ?case by auto
next
  case (Suc n)
  then have lt: "i < length ps" by linarith
  have dr: "drop i ps = ps ! i # drop (Suc i) ps"
    using lt by (simp add: Cons_nth_drop_Suc)
  show ?case
  proof (cases "read_outcome ev (trace w) (ps ! i)")
    case (Inl e)
    from eval_step_read_fail [OF Inl, of loc]
    obtain w' where st: "eval_step ev ps i loc w = (Inl e, w')"
      and tr: "trace w' = trace w @ [ReadFileSync (ps ! i) (Inl e)]" by blast
    have "eval_loop ev ps i loc w = (Inl e, w')"
      using lt st by (subst eval_loop.simps) simp
    moreover have "loop_run ps i loc (Inl e) [ReadFileSync (ps ! i) (Inl e)] []"
      by (simp add: loop_run_def)
    ultimately show ?thesis using tr by auto
  next
    case (Inr b)
    note rd = this
    let ?m = "messages loc @ [user_turn i b]"
    show ?thesis
    proof (cases "chat_outcome ev (trace w @ [ReadFileSync (ps ! i) (Inr b)]) ?m")
      case (Inl e)
      from eval_step_chat_fail [OF rd Inl]
      obtain w' where st: "eval_step ev ps i loc w = (Inl e, w')"
        and tr: "trace w' = trace w @ [ReadFileSync (ps ! i) (Inr b), ModelCall ?m (Inl e)]"
        by blast
      have "eval_loop ev ps i loc w = (Inl e, w')"
        using lt st by (subst eval_loop.simps) simp
      moreover have "zip (drop i ps) [b] = [(ps ! i, b)]"
        by (subst dr) simp
      then have "loop_run ps i loc (Inl e) [ReadFileSync (ps ! i) (Inr b), ModelCall ?m (Inl e)] [b]"
        using lt by (simp add: loop_run_def)
      ultimately show ?thesis using tr by auto
    next
      case (Inr a)
      from eval_step_ok [OF rd Inr]
      obtain w1 loc1 where st: "eval_step ev ps i loc w = (Inr loc1, w1)"
        and m1: "messages loc1 = messages loc @ [user_turn i b, AIMessage (Str a)]"
        and a1: "annotations loc1 = annotations loc @ [a]"
        and tr: "trace w1 = trace w @ [ReadFileSync (ps ! i) (Inr b), ModelCall ?m (Inr a), NewDate]"
        by blast
      have unfold: "eval_loop ev ps i loc w = eval_loop ev ps (Suc i) loc1 w1"
        using lt st by (subst eval_loop.simps) simp
      have n: "n = length ps - Suc i" using Suc.hyps(2) by linarith
      obtain new bs where
        r1: "trace (snd (eval_loop ev ps (Suc i) loc1 w1)) = trace w1 @ new"
        and r2: "loop_run ps (Suc i) loc1 (fst (eval_loop ev ps (Suc i) loc1 w1)) new bs"
        using Suc.hyps(1) [OF n, of loc1 w1] by blast
      let ?new = "[ReadFileSync (ps ! i) (Inr b), ModelCall ?m (Inr a), NewDate] @ new"
      have "trace (snd (eval_loop ev ps (Suc i) loc1 w1)) = trace w @ ?new"
        by (simp add: r1 tr)
      moreover have "loop_run ps i loc (fst (eval_loop ev ps (Suc i) loc1 w1)) ?new (b # bs)"
        using loop_run_step [OF lt m1 a1 r2] .
      ultimately show ?thesis unfolding unfold by blast
    qed
  qed
qed

text \<open>From the recursive descriptions of the calls to facts about the \<open>k\<close>-th call.\<close>

lemma loop_calls_linked: "loop_calls i m bs cs \<Longrightarrow> linked m cs"
proof (induction i m bs cs rule: loop_calls.induct)
  case (3 i m b bs m' r cs)
  have m': "m' = m @ [user_turn i b]" using "3.prems" by simp
  show ?case
  proof (cases r)
    case (Inl e)
    then show ?thesis using "3.prems" by (simp add: user_turn_def)
  next
    case (Inr a)
    have "loop_calls (Suc i) (m' @ [AIMessage (Str a)]) bs cs"
      using "3.prems" unfolding Inr loop_calls.simps sum.case by (rule conjunct2)
    from "3.IH" [OF Inr this] show ?thesis
      using Inr by (simp add: m' user_turn_def)
  qed
qed simp_all

lemma loop_calls_nth:
  "loop_calls i m bs cs \<Longrightarrow>
     length bs = length cs \<and> (\<forall>k<length cs. last (fst (cs ! k)) = user_turn (i + k) (bs ! k))"
proof (induction i m bs cs rule: loop_calls.induct)
  case (3 i m b bs m' r cs)
  have m': "m' = m @ [user_turn i b]" using "3.prems" by simp
  show ?case
  proof (cases r)
    case (Inl e)
    then show ?thesis using "3.prems" by simp
  next
    case (Inr a)
    have "loop_calls (Suc i) (m' @ [AIMessage (Str a)]) bs cs"
      using "3.prems" unfolding Inr loop_calls.simps sum.case by (rule conjunct2)
    from "3.IH" [OF Inr this]
    have len: "length bs = length cs"
      and ih: "\<forall>k<length cs. last (fst (cs ! k)) = user_turn (Suc i + k) (bs ! k)"
      by simp_all
    have "last (fst (((m', r) # cs) ! k)) = user_turn (i + k) ((b # bs) ! k)"
      if "k < length ((m', r) # cs)" for k
    proof (cases k)
      case 0
      then show ?thesis by (simp add: m')
    next
      case (Suc j)
      then have "j < length cs" using that by simp
      then show ?thesis using ih Suc by simp
    qed
    then show ?thesis using len by simp
  qed
qed simp_all

lemma linked_roles:
  "linked m cs \<Longrightarrow>
     \<forall>k<length cs. map role_of (fst (cs ! k))
                     = map role_of m @ concat (replicate k [User, Assistant]) @ [User]
                   \<and> take (length m) (fst (cs ! k)) = m"
proof (induction m cs rule: linked.induct)
  case (2 m m' r cs)
  define u where "u = last m'"
  have "m' \<noteq> []" using 2(2) by auto
  then have "butlast m' @ [u] = m'" by (simp add: u_def)
  moreover have "butlast m' = m" using 2(2) by simp
  ultimately have m': "m' = m @ [u]" by simp
  have u: "role_of u = User" using 2(2) by (simp add: u_def)
  show ?case
  proof (intro allI impI)
    fix k assume k: "k < length ((m', r) # cs)"
    show "map role_of (fst (((m', r) # cs) ! k))
            = map role_of m @ concat (replicate k [User, Assistant]) @ [User]
          \<and> take (length m) (fst (((m', r) # cs) ! k)) = m"
    proof (cases k)
      case 0
      then show ?thesis by (simp add: m' u)
    next
      case (Suc j)
      then have j: "j < length cs" using k by simp
      then obtain a where r: "r = Inr a" using 2(2) by (cases r) auto
      then have "linked (m' @ [AIMessage (Str a)]) cs" using 2(2) by simp
      from "2.IH" [OF r this] j
      have 1: "map role_of (fst (cs ! j))
                 = map role_of (m' @ [AIMessage (Str a)]) @ concat (replicate j [User, Assistant]) @ [User]"
        and 2: "take (length (m' @ [AIMessage (Str a)])) (fst (cs ! j)) = m' @ [AIMessage (Str a)]"
        by simp_all
      have a: "map role_of (fst (cs ! j))
                 = map role_of m @ concat (replicate (Suc j) [User, Assistant]) @ [User]"
        unfolding 1 by (simp add: m' u)
      have "take (length m) (fst (cs ! j))
              = take (length m) (take (length (m' @ [AIMessage (Str a)])) (fst (cs ! j)))"
        by (simp add: m' min_def)
      also have "\<dots> = take (length m) (m' @ [AIMessage (Str a)])"
        by (simp only: 2)
      also have "\<dots> = m" by (simp add: m')
      finally show ?thesis using a Suc by simp
    qed
  qed
qed simp

lemma linked_next:
  "linked m cs \<Longrightarrow>
     \<forall>k. Suc k < length cs \<longrightarrow>
       (\<exists>a u. snd (cs ! k) = Inr a \<and> fst (cs ! Suc k) = fst (cs ! k) @ [AIMessage (Str a), u])"
proof (induction m cs rule: linked.induct)
  case (2 m m' r cs)
  show ?case
  proof (intro allI impI)
    fix k assume k: "Suc k < length ((m', r) # cs)"
    then have ne: "cs \<noteq> []" by auto
    then obtain a where r: "r = Inr a" using 2(2) by (cases r) auto
    then have l: "linked (m' @ [AIMessage (Str a)]) cs" using 2(2) by simp
    show "\<exists>a u. snd (((m', r) # cs) ! k) = Inr a
            \<and> fst (((m', r) # cs) ! Suc k) = fst (((m', r) # cs) ! k) @ [AIMessage (Str a), u]"
    proof (cases k)
      case 0
      obtain m2 r2 cs2 where c: "cs = (m2, r2) # cs2" using ne by (cases cs) auto
      then have b: "butlast m2 = m' @ [AIMessage (Str a)]" and n2: "m2 \<noteq> []"
        using l by auto
      have "(m' @ [AIMessage (Str a)]) @ [last m2] = m2"
        by (simp only: snoc_eq_iff_butlast b n2) simp
      then have "m2 = m' @ [AIMessage (Str a), last m2]" by simp
      then show ?thesis using 0 r c by auto
    next
      case (Suc j)
      then show ?thesis using "2.IH" [OF r l] k by simp
    qed
  qed
qed simp

lemma linked_append:
  "linked m cs \<Longrightarrow> \<forall>c\<in>set cs. \<exists>a. snd c = Inr a \<Longrightarrow> linked (conv_end m cs) cs' \<Longrightarrow>
   linked m (cs @ cs')"
proof (induction m cs rule: linked.induct)
  case (2 m m' r cs)
  then obtain a where r: "r = Inr a" by auto
  then show ?case using 2 by simp
qed simp

lemma linked_summary: "linked m [(m @ [HumanMessage c], r)]"
  by (cases r) simp_all

lemma analysis_run_loop_failed:
  assumes run: "loop_run ps 0 loc0 (Inl e) new bs"
    and m0: "messages loc0 = [SystemMessage (Str system_prompt)]"
  shows "analysis_run ps (Inl e) new bs (chat_calls new) []"
proof -
  have lc: "loop_calls 0 [SystemMessage (Str system_prompt)] bs (chat_calls new)"
    and im: "images_read new = zip ps bs"
    using run unfolding loop_run_def m0 by simp_all
  from loop_calls_linked [OF lc] lc im show ?thesis
    by (simp add: analysis_run_def)
qed

lemma analysis_run_after_loop:
  assumes run: "loop_run ps 0 loc0 (Inr loc1) new bs"
    and m0: "messages loc0 = [SystemMessage (Str system_prompt)]"
    and a0: "annotations loc0 = []"
    and cc: "chat_calls extra = [(messages loc1 @ [HumanMessage (Str summary_prompt)], r)]"
    and ir: "images_read extra = []"
    and res: "\<forall>loc s. res = Inr (loc, s) \<longrightarrow>
                r = Inr s \<and> annotations loc = annotations loc1
                \<and> messages loc = messages loc1 @ [HumanMessage (Str summary_prompt)]"
  shows "analysis_run ps res (new @ extra) bs (chat_calls new)
           [(messages loc1 @ [HumanMessage (Str summary_prompt)], r)]"
proof -
  let ?sys = "[SystemMessage (Str system_prompt)]"
  let ?lc = "chat_calls new"
  let ?msgs = "messages loc1 @ [HumanMessage (Str summary_prompt)]"
  have lc: "loop_calls 0 ?sys bs ?lc"
    and im: "images_read new = zip ps bs"
    using run unfolding loop_run_def m0 by simp_all
  have "\<forall>loc'. Inr loc1 = (Inr loc' :: error + locals) \<longrightarrow>
            length bs = length ps - 0
            \<and> messages loc' = conv_end (messages loc0) ?lc
            \<and> (\<exists>as. annotations loc' = annotations loc0 @ as \<and> map snd ?lc = map Inr as)"
    using run unfolding loop_run_def by blast
  then have len: "length bs = length ps"
    and ce: "messages loc1 = conv_end ?sys ?lc"
    and an: "map snd ?lc = map Inr (annotations loc1)"
    by (auto simp: m0 a0)
  have ll: "length ?lc = length ps"
    using loop_calls_nth [OF lc] len by simp
  have ok: "\<forall>c\<in>set ?lc. \<exists>a. snd c = Inr a"
  proof
    fix c assume "c \<in> set ?lc"
    then have "snd c \<in> set (map snd ?lc)" by simp
    then show "\<exists>a. snd c = Inr a" unfolding an by auto
  qed
  have "linked (conv_end ?sys ?lc) [(?msgs, r)]"
    unfolding ce [symmetric] by (rule linked_summary)
  from linked_append [OF loop_calls_linked [OF lc] ok this]
  have lk: "linked ?sys (?lc @ [(?msgs, r)])" .
  have fin: "length ?lc = length ps
            \<and> map snd ?lc = map Inr (annotations loc)
            \<and> [(?msgs, r)] = [(messages loc, Inr s)]
            \<and> messages loc = conv_end ?sys ?lc @ [HumanMessage (Str summary_prompt)]"
    if "res = Inr (loc, s)" for loc s
  proof -
    from res that have "r = Inr s" and "annotations loc = annotations loc1"
      and "messages loc = ?msgs" by blast+
    then show ?thesis using ll an ce by simp
  qed
  show ?thesis
    unfolding analysis_run_def using lc lk im ll fin by (simp add: cc ir)
qed

text \<open>The \<^verbatim>\<open>try\<close> block of the analysis, in any environment.\<close>

lemma evaluate_try_run:
  "\<exists>new bs lc rest. trace (snd (evaluate_try ev ps out w)) = trace w @ new
     \<and> analysis_run ps (fst (evaluate_try ev ps out w)) new bs lc rest"
proof -
  define loc0 where "loc0 = \<lparr>messages = [SystemMessage (Str system_prompt)], annotations = [],
                 conversationLog = []\<rparr>"
  define w0 where "w0 = console_log ''Starting screenshot evaluation with Claude...'' w"
  have m0: "messages loc0 = [SystemMessage (Str system_prompt)]"
    and a0: "annotations loc0 = []" by (simp_all add: loc0_def)
  obtain r1 w1 where el: "eval_loop ev ps 0 loc0 w0 = (r1, w1)"
    by (cases "eval_loop ev ps 0 loc0 w0")
  obtain new bs where t1: "trace w1 = trace w @ new" and lr: "loop_run ps 0 loc0 r1 new bs"
    using eval_loop_run [of ev ps 0 loc0 w0] el by (auto simp: w0_def)
  show ?thesis
  proof (cases r1)
    case (Inl e)
    then have "evaluate_try ev ps out w = (Inl e, w1)"
      using el unfolding w0_def loc0_def by (simp add: evaluate_try_def Let_def)
    moreover have "analysis_run ps (Inl e) new bs (chat_calls new) []"
      using analysis_run_loop_failed [OF _ m0] lr Inl by simp
    ultimately show ?thesis using t1 by auto
  next
    case (Inr loc1)
    then have lr1: "loop_run ps 0 loc0 (Inr loc1) new bs" using lr by simp
    define msgs where "msgs = messages loc1 @ [HumanMessage (Str summary_prompt)]"
    define r where "r = chat_outcome ev (trace w1) msgs"
    define w3 where "w3 = emit (ModelCall msgs r) (console_log ''Generating workflow summary...'' w1)"
    show ?thesis
    proof (cases r)
      case (Inl e)
      then have "evaluate_try ev ps out w = (Inl e, w3)"
        using el Inr unfolding w3_def r_def msgs_def w0_def loc0_def
        by (simp add: evaluate_try_def Let_def model_call_def)
      moreover have "trace w3 = trace w @ new @ [ModelCall msgs r]"
        by (simp add: w3_def t1)
      moreover have "analysis_run ps (Inl e) (new @ [ModelCall msgs r]) bs (chat_calls new) [(msgs, r)]"
        unfolding msgs_def
        by (rule analysis_run_after_loop [OF lr1 m0 a0]) (simp_all add: msgs_def)
      ultimately show ?thesis by auto
    next
      case (Inr summary)
      note rs = this
      define clog where "clog = conversationLog loc1 @ ''\<newline>\<newline>## Workflow Summary\<newline>''
                                 @ ''*Generated on: '' @ date_locale_string ev (trace w3)
                                 @ ''*\<newline>\<newline>'' @ summary"
      define op where "op = WriteFileSync (path_join out ''conversation_log.md'') clog"
      define f where "f = fs_outcome ev (trace w3 @ [NewDate]) op"
      define w5 where "w5 = emit (Fs op f) (emit NewDate w3)"
      let ?extra = "[ModelCall msgs r, NewDate, Fs op f]"
      have t5: "trace w5 = trace w @ new @ ?extra"
        by (simp add: w5_def w3_def t1)
      show ?thesis
      proof (cases f)
        case None
        then have "evaluate_try ev ps out w =
            (Inr (loc1\<lparr>messages := msgs, conversationLog := clog\<rparr>, summary),
             console_log ''Evaluation complete. Conversation log saved.'' w5)"
          using el \<open>r1 = Inr loc1\<close> rs
          unfolding w5_def f_def op_def clog_def w3_def r_def msgs_def w0_def loc0_def
          by (simp add: evaluate_try_def Let_def model_call_def new_date_locale_def
                write_file_sync_def fs_do_def)
        moreover have "analysis_run ps
            (Inr (loc1\<lparr>messages := msgs, conversationLog := clog\<rparr>, summary))
            (new @ ?extra) bs (chat_calls new) [(msgs, r)]"
          unfolding msgs_def
          by (rule analysis_run_after_loop [OF lr1 m0 a0]) (simp_all add: msgs_def rs)
        ultimately show ?thesis using t5 by auto
      next
        case (Some e)
        then have "evaluate_try ev ps out w = (Inl e, w5)"
          using el \<open>r1 = Inr loc1\<close> rs
          unfolding w5_def f_def op_def clog_def w3_def r_def msgs_def w0_def loc0_def
          by (simp add: evaluate_try_def Let_def model_call_def new_date_locale_def
                write_file_sync_def fs_do_def)
        moreover have "analysis_run ps (Inl e) (new @ ?extra) bs (chat_calls new) [(msgs, r)]"
          unfolding msgs_def
          by (rule analysis_run_after_loop [OF lr1 m0 a0]) (simp_all add: msgs_def)
        ultimately show ?thesis using t5 by auto
      qed
    qed
  qed
qed

lemma conv_end_roles:
  "linked m cs \<Longrightarrow> \<forall>c\<in>set cs. \<exists>a. snd c = Inr a \<Longrightarrow>
   map role_of (conv_end m cs) = map role_of m @ concat (replicate (length cs) [User, Assistant])"
proof (induction m cs rule: linked.induct)
  case (2 m m' r cs)
  then obtain a where r: "r = Inr a" by auto
  define u where "u = last m'"
  have "m' \<noteq> []" using 2(2) by auto
  then have "butlast m' @ [u] = m'" by (simp add: u_def)
  moreover have "butlast m' = m" using 2(2) by simp
  ultimately have m': "m' = m @ [u]" by simp
  have u: "role_of u = User" using 2(2) by (simp add: u_def)
  have l: "linked (m' @ [AIMessage (Str a)]) cs" using 2(2) r by simp
  have ok: "\<forall>c\<in>set cs. \<exists>a. snd c = Inr a" using 2(3) by simp
  from "2.IH" [OF r l ok] show ?case
    by (simp add: r m' u)
qed simp

lemma intersperse_eq_Nil [simp]: "(intersperse s xs = []) = (xs = [])"
  by (induction s xs rule: intersperse.induct) simp_all

lemma last_intersperse: "xs \<noteq> [] \<Longrightarrow> last (intersperse s xs) = last xs"
  by (induction s xs rule: intersperse.induct) simp_all

lemma length_intersperse: "length (intersperse s xs) = 2 * length xs - 1"
  by (induction s xs rule: intersperse.induct) simp_all

section \<open>The claims about the capture loop\<close>

text \<open>
  Claim C4. For a target count \<open>n \<ge> 1\<close> and any interval \<open>t\<close>, when every capture attempt
  succeeds the loop returns exactly \<open>n\<close> paths; the \<open>k\<close>-th path carries the sequence number
  of index \<open>k\<close>; the captures and waits of the run are the \<open>n\<close> captures in order with exactly
  one wait of \<open>t\<close> ms between two neighbours, so the run ends with the last capture and no
  wait follows it.
\<close>

theorem capture_loop_schedule:
  assumes "1 \<le> n" and "\<forall>tr p. screenshot_outcome ev tr p = None"
  shows "\<exists>paths w'. capture_loop ev d n t 0 [] w = (Inr paths, w')
           \<and> length paths = nat n
           \<and> (\<forall>k<nat n. \<exists>stamp. paths ! k = path_join d (screenshot_name k stamp))
           \<and> timing (added w w') =
               intersperse (WaitForTimeout t) (map (\<lambda>q. PageScreenshot q None) paths)
           \<and> length (timing (added w w')) = 2 * nat n - 1
           \<and> last (timing (added w w')) = PageScreenshot (last paths) None"
proof -
  obtain qs w' new where run: "capture_loop ev d n t 0 [] w = (Inr ([] @ qs), w')"
    and len: "length qs = nat (n - int 0)"
    and names: "\<forall>k<length qs. \<exists>stamp. qs ! k = path_join d (screenshot_name (0 + k) stamp)"
    and tr: "trace w' = trace w @ new"
    and tm: "timing new = intersperse (WaitForTimeout t) (map (\<lambda>q. PageScreenshot q None) qs)"
    using capture_loop_all_ok [OF assms(2), of d n t 0 "[]" w] by blast
  have ne: "qs \<noteq> []" using len assms(1) by auto
  have a: "added w w' = new" using tr by (rule added_append)
  have "last (timing new) = PageScreenshot (last qs) None"
    using ne by (simp add: tm last_intersperse last_map)
  moreover have "length (timing new) = 2 * nat n - 1"
    using len by (simp add: tm length_intersperse)
  ultimately show ?thesis
    using run len names tm a by auto
qed

theorem capture_loop_schedule_witness:
  "(1::int) \<le> 2 \<and> (\<forall>tr p. screenshot_outcome env_ok tr p = None)
   \<and> (\<exists>paths w'. capture_loop env_ok ''screenshots'' 2 1000 0 [] w_init = (Inr paths, w')
         \<and> length paths = 2
         \<and> timing (added w_init w') =
             [PageScreenshot (paths ! 0) None, WaitForTimeout 1000, PageScreenshot (paths ! 1) None])"
proof -
  have h1: "(1::int) \<le> 2" by simp
  have h2: "\<forall>tr p. screenshot_outcome env_ok tr p = None" by (simp add: env_ok_def)
  obtain paths w' where run: "capture_loop env_ok ''screenshots'' 2 1000 0 [] w_init = (Inr paths, w')"
    and len: "length paths = nat 2"
    and tm: "timing (added w_init w') =
               intersperse (WaitForTimeout 1000) (map (\<lambda>q. PageScreenshot q None) paths)"
    using capture_loop_schedule [OF h1 h2, of "''screenshots''" 1000 w_init] by blast
  obtain p0 p1 where "paths = [p0, p1]"
    using len by (cases paths; cases "tl paths") auto
  then show ?thesis using h2 run tm by simp
qed



section \<open>The claims about the report\<close>



text \<open>
  Claim C8. In a run of \<^verbatim>\<open>main\<close> whose captures succeeded, \<^verbatim>\<open>main\<close> returns
  normally whatever the analysis and the report do; when the \<^verbatim>\<open>try\<close> block of
  \<^verbatim>\<open>createReports\<close> throws \<open>e\<close>, \<^verbatim>\<open>createReports\<close> returns after printing the error, and
  the error is on the console when \<^verbatim>\<open>main\<close> returns. \<^verbatim>\<open>main\<close> throws only when the capture
  loop does.
\<close>

theorem report_failure_swallowed:
  "(fst (createReports_try ev ps anns s out w) = Inl e \<longrightarrow>
      createReports ev ps anns s out w =
        console_error (''Error creating reports: '' @ e) (snd (createReports_try ev ps anns s out w)))
   \<and> (fst (capture_loop ev d n t 0 [] w0) = Inr paths \<longrightarrow>
        (let w1 = snd (capture_loop ev d n t 0 [] w0);
             analysis = evaluateScreenshotsWithClaude ev paths out
                          (console_log ''All screenshots taken. Now evaluating with Claude...'' w1);
             report = createReports_try ev paths (fst (fst analysis)) (snd (fst analysis)) out
                        (snd analysis)
         in fst (main ev d out n t w0) = Inr ()
            \<and> (\<forall>e'. fst report = Inl e' \<longrightarrow>
                  ConsoleError (''Error creating reports: '' @ e')
                    \<in> set (console (snd (main ev d out n t w0))))))
   \<and> ((\<exists>e'. fst (main ev d out n t w0) = Inl e') = (\<exists>e'. fst (capture_loop ev d n t 0 [] w0) = Inl e'))"
proof (intro conjI impI)
  assume "fst (createReports_try ev ps anns s out w) = Inl e"
  then show "createReports ev ps anns s out w =
        console_error (''Error creating reports: '' @ e) (snd (createReports_try ev ps anns s out w))"
    by (auto simp: createReports_def split: prod.splits)
next
  assume c: "fst (capture_loop ev d n t 0 [] w0) = Inr paths"
  define w1 where "w1 = snd (capture_loop ev d n t 0 [] w0)"
  have cl: "capture_loop ev d n t 0 [] w0 = (Inr paths, w1)"
    using c by (simp add: w1_def prod_eq_iff)
  show "let w1 = snd (capture_loop ev d n t 0 [] w0);
             analysis = evaluateScreenshotsWithClaude ev paths out
                          (console_log ''All screenshots taken. Now evaluating with Claude...'' w1);
             report = createReports_try ev paths (fst (fst analysis)) (snd (fst analysis)) out
                        (snd analysis)
         in fst (main ev d out n t w0) = Inr ()
            \<and> (\<forall>e'. fst report = Inl e' \<longrightarrow>
                  ConsoleError (''Error creating reports: '' @ e')
                    \<in> set (console (snd (main ev d out n t w0))))"
    unfolding w1_def [symmetric]
    by (auto simp: main_def main_try_def cl Let_def createReports_def split: prod.splits sum.splits)
next
  show "(\<exists>e'. fst (main ev d out n t w0) = Inl e') = (\<exists>e'. fst (capture_loop ev d n t 0 [] w0) = Inl e')"
    by (cases "capture_loop ev d n t 0 [] w0")
       (auto simp: main_def main_try_def Let_def page_screenshot_def
          split: prod.splits sum.splits option.splits)
qed

text \<open>
  Claim C10. In the events of \<^verbatim>\<open>createReports\<close>, a file operation that fails is the last
  event: nothing that was to come after it is tried. Its error is the one the \<^verbatim>\<open>try\<close>
  block throws, and the function ends by printing it.
\<close>

theorem report_failure_aborts:
  assumes "added w (createReports ev ps anns s out w) = pre @ Fs op (Some e) # post"
  shows "post = []
     \<and> fst (createReports_try ev ps anns s out w) = Inl e
     \<and> last (console (createReports ev ps anns s out w)) = ConsoleError (''Error creating reports: '' @ e)"
proof -
  obtain new where tr: "trace (snd (createReports_try ev ps anns s out w)) = trace w @ new"
    and st: "stops_at_failure (fst (createReports_try ev ps anns s out w)) new"
    using createReports_try_any [of ev ps anns s out w] by blast
  have "trace (createReports ev ps anns s out w) = trace (snd (createReports_try ev ps anns s out w))"
    by (simp add: createReports_def split: prod.splits sum.splits)
  then have "added w (createReports ev ps anns s out w) = new"
    using tr by (simp add: added_append)
  then have "new = pre @ Fs op (Some e) # post" using assms by simp
  from stops_at_failure_last [OF st this]
  have p: "post = []" and f: "fst (createReports_try ev ps anns s out w) = Inl e"
    by simp_all
  from f have "last (console (createReports ev ps anns s out w)) = ConsoleError (''Error creating reports: '' @ e)"
    by (auto simp: createReports_def split: prod.splits)
  with p f show ?thesis by simp
qed

theorem report_failure_aborts_witness:
  "added w_init (createReports env_disk_fills [''screenshots/a.png'', ''screenshots/b.png'']
                   [''first'', ''second''] ''all good'' ''analysis'' w_init)
     = [ExistsSync ''analysis'' True,
        Fs (CopyFileSync ''screenshots/a.png'' ''analysis/a.png'') None,
        Fs (WriteFileSync ''analysis/a-annotation.md'' ''first'') None,
        Fs (CopyFileSync ''screenshots/b.png'' ''analysis/b.png'') (Some ''Error: ENOSPC'')]
   \<and> fst (createReports_try env_disk_fills [''screenshots/a.png'', ''screenshots/b.png'']
                   [''first'', ''second''] ''all good'' ''analysis'' w_init) = Inl ''Error: ENOSPC''
   \<and> last (console (createReports env_disk_fills [''screenshots/a.png'', ''screenshots/b.png'']
                   [''first'', ''second''] ''all good'' ''analysis'' w_init))
       = ConsoleError ''Error creating reports: Error: ENOSPC''"
proof -
  have h: "added w_init (createReports env_disk_fills [''screenshots/a.png'', ''screenshots/b.png'']
                   [''first'', ''second''] ''all good'' ''analysis'' w_init)
     = [ExistsSync ''analysis'' True,
        Fs (CopyFileSync ''screenshots/a.png'' ''analysis/a.png'') None,
        Fs (WriteFileSync ''analysis/a-annotation.md'' ''first'') None]
       @ Fs (CopyFileSync ''screenshots/b.png'' ''analysis/b.png'') (Some ''Error: ENOSPC'') # []"
    by (simp add: createReports_def createReports_try_def report_loop.simps exists_sync_def
          fs_do_def write_file_sync_def js_index_def Let_def env_disk_fills_def env_ok_def
          w_init_def added_def basename_def split_pop_def annotation_name_def path_join_def)
  from report_failure_aborts [OF h] h show ?thesis by simp
qed

theorem report_failure_swallowed_witness:
  "fst (main env_disk_fills ''screenshots'' ''analysis'' 1 1000 w_init) = Inr ()
   \<and> ConsoleError ''Error creating reports: Error: ENOSPC''
        \<in> set (console (snd (main env_disk_fills ''screenshots'' ''analysis'' 1 1000 w_init)))"
proof -
  let ?paths = "[''screenshots/screenshot-1-2025-01-01T12-00-00.000Z.png'']"
  define w1 where "w1 = snd (capture_loop env_disk_fills ''screenshots'' 1 1000 0 [] w_init)"
  define analysis where "analysis = evaluateScreenshotsWithClaude env_disk_fills ?paths ''analysis''
                          (console_log ''All screenshots taken. Now evaluating with Claude...'' w1)"
  have c: "fst (capture_loop env_disk_fills ''screenshots'' 1 1000 0 [] w_init) = Inr ?paths"
    by code_simp
  have r: "fst (createReports_try env_disk_fills ?paths (fst (fst analysis)) (snd (fst analysis))
                  ''analysis'' (snd analysis)) = Inl ''Error: ENOSPC''"
    unfolding analysis_def w1_def by code_simp
  from report_failure_swallowed [where ev = env_disk_fills and d = "''screenshots''" and n = 1
      and t = 1000 and ?w0.0 = w_init and paths = ?paths and out = "''analysis''"]
  show ?thesis
    using c r by (simp add: Let_def w1_def [symmetric] analysis_def [symmetric])
qed

lemma trace_evaluate:
  "trace (snd (evaluateScreenshotsWithClaude ev ps out w)) = trace (snd (evaluate_try ev ps out w))"
  by (auto simp: evaluateScreenshotsWithClaude_def split: prod.splits sum.splits)

lemma added_evaluate:
  "added w (snd (evaluateScreenshotsWithClaude ev ps out w)) = added w (snd (evaluate_try ev ps out w))"
  by (simp add: added_def trace_evaluate)

lemma prompt_of_user_turn [simp]: "prompt_of (user_turn k b) = Some (promptText k)"
  by (simp add: user_turn_def)

lemma first_later_differ: "first_prompt \<noteq> later_prompt"
  by (simp add: first_prompt_def later_prompt_def)

text \<open>\<^verbatim>\<open>main\<close> after a capture loop that returned normally.\<close>

lemma main_after_capture:
  assumes c: "fst (capture_loop ev d n t 0 [] w) = Inr paths"
  shows "fst (main ev d out n t w) = Inr ()"
    and "trace (snd (main ev d out n t w))
          = trace (createReports ev paths
              (fst (fst (evaluateScreenshotsWithClaude ev paths out
                 (console_log ''All screenshots taken. Now evaluating with Claude...''
                    (snd (capture_loop ev d n t 0 [] w))))))
              (snd (fst (evaluateScreenshotsWithClaude ev paths out
                 (console_log ''All screenshots taken. Now evaluating with Claude...''
                    (snd (capture_loop ev d n t 0 [] w))))))
              out
              (snd (evaluateScreenshotsWithClaude ev paths out
                 (console_log ''All screenshots taken. Now evaluating with Claude...''
                    (snd (capture_loop ev d n t 0 [] w))))))"
    and "set (console (createReports ev paths
              (fst (fst (evaluateScreenshotsWithClaude ev paths out
                 (console_log ''All screenshots taken. Now evaluating with Claude...''
                    (snd (capture_loop ev d n t 0 [] w))))))
              (snd (fst (evaluateScreenshotsWithClaude ev paths out
                 (console_log ''All screenshots taken. Now evaluating with Claude...''
                    (snd (capture_loop ev d n t 0 [] w))))))
              out
              (snd (evaluateScreenshotsWithClaude ev paths out
                 (console_log ''All screenshots taken. Now evaluating with Claude...''
                    (snd (capture_loop ev d n t 0 [] w)))))))
          \<subseteq> set (console (snd (main ev d out n t w)))"
proof -
  have cl: "capture_loop ev d n t 0 [] w = (Inr paths, snd (capture_loop ev d n t 0 [] w))"
    using c by (simp add: prod_eq_iff)
  show "fst (main ev d out n t w) = Inr ()"
    by (subst main_def, subst main_try_def, subst cl) (simp add: Let_def split: prod.splits)
  show "trace (snd (main ev d out n t w))
          = trace (createReports ev paths
              (fst (fst (evaluateScreenshotsWithClaude ev paths out
                 (console_log ''All screenshots taken. Now evaluating with Claude...''
                    (snd (capture_loop ev d n t 0 [] w))))))
              (snd (fst (evaluateScreenshotsWithClaude ev paths out
                 (console_log ''All screenshots taken. Now evaluating with Claude...''
                    (snd (capture_loop ev d n t 0 [] w))))))
              out
              (snd (evaluateScreenshotsWithClaude ev paths out
                 (console_log ''All screenshots taken. Now evaluating with Claude...''
                    (snd (capture_loop ev d n t 0 [] w))))))"
    by (subst main_def, subst main_try_def, subst cl) (simp add: Let_def split: prod.splits)
  show "set (console (createReports ev paths
              (fst (fst (evaluateScreenshotsWithClaude ev paths out
                 (console_log ''All screenshots taken. Now evaluating with Claude...''
                    (snd (capture_loop ev d n t 0 [] w))))))
              (snd (fst (evaluateScreenshotsWithClaude ev paths out
                 (console_log ''All screenshots taken. Now evaluating with Claude...''
                    (snd (capture_loop ev d n t 0 [] w))))))
              out
              (snd (evaluateScreenshotsWithClaude ev paths out
                 (console_log ''All screenshots taken. Now evaluating with Claude...''
                    (snd (capture_loop ev d n t 0 [] w)))))))
          \<subseteq> set (console (snd (main ev d out n t w)))"
    by (subst main_def, subst main_try_def, subst cl) (auto simp: Let_def split: prod.splits)
qed

section \<open>The claims about the analysis\<close>

text \<open>
  Claim C6. In any run of the analysis, the \<open>k\<close>-th call of the chat model is given a
  conversation that starts with the one system turn, followed by \<open>k\<close> pairs of a user turn
  and an assistant turn, and one more user turn. A call that is followed by another call
  has replied, and the next call is given exactly what this call was given, then its reply,
  then one new user turn: the whole conversation so far, in its order.
\<close>

theorem chat_given_whole_conversation:
  "let cs = chat_calls (added w (snd (evaluateScreenshotsWithClaude ev ps out w))) in
     (\<forall>k<length cs.
         hd (fst (cs ! k)) = SystemMessage (Str system_prompt)
         \<and> map role_of (fst (cs ! k)) = System # concat (replicate k [User, Assistant]) @ [User])
     \<and> (\<forall>k. Suc k < length cs \<longrightarrow>
           (\<exists>a u. snd (cs ! k) = Inr a
                  \<and> fst (cs ! Suc k) = fst (cs ! k) @ [AIMessage (Str a), u]))"
proof -
  obtain new bs lc rest where tr: "trace (snd (evaluate_try ev ps out w)) = trace w @ new"
    and run: "analysis_run ps (fst (evaluate_try ev ps out w)) new bs lc rest"
    using evaluate_try_run [of ev ps out w] by blast
  have a: "added w (snd (evaluateScreenshotsWithClaude ev ps out w)) = new"
    unfolding added_evaluate using tr by (rule added_append)
  have cs: "chat_calls new = lc @ rest"
    and lk: "linked [SystemMessage (Str system_prompt)] (lc @ rest)"
    using run unfolding analysis_run_def by blast+
  have 1: "hd (fst (chat_calls new ! k)) = SystemMessage (Str system_prompt)
         \<and> map role_of (fst (chat_calls new ! k)) = System # concat (replicate k [User, Assistant]) @ [User]"
    if k: "k < length (chat_calls new)" for k
  proof -
    from linked_roles [OF lk] k cs
    have r: "map role_of (fst (chat_calls new ! k))
               = map role_of [SystemMessage (Str system_prompt)] @ concat (replicate k [User, Assistant]) @ [User]"
      and t: "take (length [SystemMessage (Str system_prompt)]) (fst (chat_calls new ! k))
               = [SystemMessage (Str system_prompt)]"
      by simp_all
    from r have ne: "fst (chat_calls new ! k) \<noteq> []" by auto
    from t ne have "hd (fst (chat_calls new ! k)) = SystemMessage (Str system_prompt)"
      by (cases "fst (chat_calls new ! k)") simp_all
    with r show ?thesis by simp
  qed
  have 2: "\<forall>k. Suc k < length (chat_calls new) \<longrightarrow>
           (\<exists>a u. snd (chat_calls new ! k) = Inr a
                  \<and> fst (chat_calls new ! Suc k) = fst (chat_calls new ! k) @ [AIMessage (Str a), u])"
    using linked_next [OF lk] unfolding cs .
  show ?thesis
    unfolding a Let_def using 1 2 by blast
qed

text \<open>
  Claim C7. In any run of the analysis, the call for the screenshot \<open>k\<close> carries the prompt
  \<open>promptText k\<close>; that is the first prompt for \<open>k = 0\<close> and the later prompt for every
  other \<open>k\<close>, and the two texts differ.
\<close>

theorem first_prompt_differs:
  "let cs = chat_calls (added w (snd (evaluateScreenshotsWithClaude ev ps out w))) in
     (\<forall>k<length cs. k < length ps \<longrightarrow> prompt_of (last (fst (cs ! k))) = Some (promptText k))
     \<and> promptText 0 = first_prompt
     \<and> (\<forall>k. 0 < k \<longrightarrow> promptText k = later_prompt \<and> promptText 0 \<noteq> promptText k)"
proof -
  obtain new bs lc rest where tr: "trace (snd (evaluate_try ev ps out w)) = trace w @ new"
    and run: "analysis_run ps (fst (evaluate_try ev ps out w)) new bs lc rest"
    using evaluate_try_run [of ev ps out w] by blast
  have a: "added w (snd (evaluateScreenshotsWithClaude ev ps out w)) = new"
    unfolding added_evaluate using tr by (rule added_append)
  have cs: "chat_calls new = lc @ rest"
    and lc: "loop_calls 0 [SystemMessage (Str system_prompt)] bs lc"
    and rs: "rest \<noteq> [] \<longrightarrow> length lc = length ps"
    using run unfolding analysis_run_def by blast+
  have 1: "prompt_of (last (fst (chat_calls new ! k))) = Some (promptText k)"
    if k: "k < length (chat_calls new)" and kp: "k < length ps" for k
  proof -
    have "k < length lc"
    proof (cases "rest = []")
      case True
      then show ?thesis using k cs by simp
    next
      case False
      then show ?thesis using rs kp by simp
    qed
    then have "chat_calls new ! k = lc ! k" and "last (fst (lc ! k)) = user_turn (0 + k) (bs ! k)"
      using loop_calls_nth [OF lc] cs by (simp_all add: nth_append)
    then show ?thesis by simp
  qed
  have 2: "promptText k = later_prompt \<and> promptText 0 \<noteq> promptText k" if "0 < k" for k
    using that first_later_differ by (simp add: promptText_def)
  show ?thesis
    unfolding a Let_def using 1 2 by (simp add: promptText_def)
qed

text \<open>
  Claim C9. When the \<^verbatim>\<open>try\<close> block of the analysis returns normally, the function returns
  its annotations and its summary; there is one annotation for each screenshot; the chat
  model was called once for each screenshot and once for the summary; the \<open>k\<close>-th image
  read is the \<open>k\<close>-th screenshot, the \<open>k\<close>-th call ends with the user turn made for the
  index \<open>k\<close> from that image, and the \<open>k\<close>-th annotation is the reply of the \<open>k\<close>-th call.
\<close>

theorem annotations_aligned:
  assumes "evaluate_try ev ps out w = (Inr (loc, summary), w')"
  shows "evaluateScreenshotsWithClaude ev ps out w = ((annotations loc, summary), w')
     \<and> length (annotations loc) = length ps
     \<and> (let cs = chat_calls (added w w'); rd = images_read (added w w') in
          length cs = length ps + 1
          \<and> length rd = length ps
          \<and> (\<forall>k<length ps.
                fst (rd ! k) = ps ! k
                \<and> last (fst (cs ! k)) = user_turn k (snd (rd ! k))
                \<and> snd (cs ! k) = Inr (annotations loc ! k))
          \<and> snd (cs ! length ps) = Inr summary)"
proof -
  obtain new bs lc rest where tr: "trace w' = trace w @ new"
    and run: "analysis_run ps (Inr (loc, summary)) new bs lc rest"
    using evaluate_try_run [of ev ps out w] assms by auto
  have a: "added w w' = new" using tr by (rule added_append)
  have cs: "chat_calls new = lc @ rest"
    and lc: "loop_calls 0 [SystemMessage (Str system_prompt)] bs lc"
    and im: "images_read new = zip ps bs"
    and fin: "\<forall>loc' summary'. Inr (loc, summary) = (Inr (loc', summary') :: error + locals \<times> string) \<longrightarrow>
            length lc = length ps
            \<and> map snd lc = map Inr (annotations loc')
            \<and> rest = [(messages loc', Inr summary')]
            \<and> messages loc' = conv_end [SystemMessage (Str system_prompt)] lc
                               @ [HumanMessage (Str summary_prompt)]"
    using run unfolding analysis_run_def by blast+
  from fin have ll: "length lc = length ps"
    and an: "map snd lc = map Inr (annotations loc)"
    and rest: "rest = [(messages loc, Inr summary)]" by auto
  from loop_calls_nth [OF lc]
  have lb: "length bs = length lc"
    and ut: "\<forall>k<length lc. last (fst (lc ! k)) = user_turn (0 + k) (bs ! k)" by simp_all
  have la: "length (annotations loc) = length ps"
    using arg_cong [OF an, of length] ll by simp
  have each: "fst (images_read new ! k) = ps ! k
                \<and> last (fst (chat_calls new ! k)) = user_turn k (snd (images_read new ! k))
                \<and> snd (chat_calls new ! k) = Inr (annotations loc ! k)"
    if k: "k < length ps" for k
  proof -
    have kl: "k < length lc" using k ll by simp
    have "snd (lc ! k) = map snd lc ! k" using kl by simp
    also have "\<dots> = Inr (annotations loc ! k)" unfolding an using k la by simp
    finally have "snd (lc ! k) = Inr (annotations loc ! k)" .
    moreover have "images_read new ! k = (ps ! k, bs ! k)"
      using k lb ll by (simp add: im)
    moreover have "last (fst (lc ! k)) = user_turn k (bs ! k)"
      using ut kl by simp
    moreover have "chat_calls new ! k = lc ! k"
      using kl by (simp add: cs nth_append)
    ultimately show ?thesis by simp
  qed
  have "evaluateScreenshotsWithClaude ev ps out w = ((annotations loc, summary), w')"
    by (simp add: evaluateScreenshotsWithClaude_def assms)
  moreover have "length (chat_calls new) = length ps + 1"
    by (simp add: cs rest ll)
  moreover have "length (images_read new) = length ps"
    by (simp add: im lb ll)
  moreover have "snd (chat_calls new ! length ps) = Inr summary"
    by (simp add: cs rest nth_append ll)
  ultimately show ?thesis
    unfolding a Let_def using la each by blast
qed

text \<open>
  Claim C2, as the code has it. When the loop of the analysis has gone through the \<open>k\<close>
  screenshots, the conversation is the system turn and \<open>k\<close> pairs of a user turn and an
  assistant turn: \<open>1 + 2k\<close> turns. The call for the screenshot \<open>j\<close> is given
  \<open>1 + 2j + 1\<close> turns. When the \<^verbatim>\<open>try\<close> block returns, the conversation is that and the
  request for the summary, its last turn: \<open>1 + 2k + 1\<close> turns. The reply to that request
  is returned as the summary and is not added to the conversation.
\<close>

theorem conversation_turns:
  "(eval_loop ev ps 0 \<lparr>messages = [SystemMessage (Str system_prompt)], annotations = [],
                        conversationLog = []\<rparr> w0 = (Inr loc1, w1) \<longrightarrow>
      map role_of (messages loc1) = System # concat (replicate (length ps) [User, Assistant])
      \<and> length (messages loc1) = 1 + 2 * length ps)
   \<and> (let cs = chat_calls (added w (snd (evaluate_try ev ps out w))) in
         \<forall>j<length cs. length (fst (cs ! j)) = 1 + 2 * j + 1)
   \<and> (evaluate_try ev ps out w = (Inr (loc, summary), w') \<longrightarrow>
        map role_of (messages loc)
          = System # concat (replicate (length ps) [User, Assistant]) @ [User]
        \<and> length (messages loc) = 1 + 2 * length ps + 1
        \<and> last (messages loc) = HumanMessage (Str summary_prompt))"
proof -
  let ?sys = "[SystemMessage (Str system_prompt)]"
  let ?loc0 = "\<lparr>messages = ?sys, annotations = [], conversationLog = []\<rparr>"
  have p1: "map role_of (messages loc1) = System # concat (replicate (length ps) [User, Assistant])
      \<and> length (messages loc1) = 1 + 2 * length ps"
    if el: "eval_loop ev ps 0 ?loc0 w0 = (Inr loc1, w1)"
  proof -
  obtain new bs where run: "loop_run ps 0 ?loc0 (Inr loc1) new bs"
    using eval_loop_run [of ev ps 0 ?loc0 w0] el by auto
  have lc: "loop_calls 0 ?sys bs (chat_calls new)"
    using run unfolding loop_run_def by simp
  have "\<forall>loc'. Inr loc1 = (Inr loc' :: error + locals) \<longrightarrow>
            length bs = length ps - 0
            \<and> messages loc' = conv_end (messages ?loc0) (chat_calls new)
            \<and> (\<exists>as. annotations loc' = annotations ?loc0 @ as \<and> map snd (chat_calls new) = map Inr as)"
    using run unfolding loop_run_def by blast
  then obtain as where len: "length bs = length ps"
    and ce: "messages loc1 = conv_end ?sys (chat_calls new)"
    and an: "map snd (chat_calls new) = map Inr as" by auto
  have ok: "\<forall>c\<in>set (chat_calls new). \<exists>a. snd c = Inr a"
  proof
    fix c assume "c \<in> set (chat_calls new)"
    then have "snd c \<in> set (map snd (chat_calls new))" by simp
    then show "\<exists>a. snd c = Inr a" unfolding an by auto
  qed
  have ll: "length (chat_calls new) = length ps"
    using loop_calls_nth [OF lc] len by simp
  from conv_end_roles [OF loop_calls_linked [OF lc] ok]
  have r: "map role_of (messages loc1) = System # concat (replicate (length ps) [User, Assistant])"
    by (simp add: ce ll)
  from arg_cong [OF r, of length] have "length (messages loc1) = 1 + 2 * length ps"
    by (simp add: length_concat sum_list_replicate)
  then show ?thesis
    using r by simp
  qed
  have p2: "let cs = chat_calls (added w (snd (evaluate_try ev ps out w))) in
         \<forall>j<length cs. length (fst (cs ! j)) = 1 + 2 * j + 1"
  proof -
  obtain new bs lc rest where tr: "trace (snd (evaluate_try ev ps out w)) = trace w @ new"
    and run: "analysis_run ps (fst (evaluate_try ev ps out w)) new bs lc rest"
    using evaluate_try_run [of ev ps out w] by blast
  have a: "added w (snd (evaluate_try ev ps out w)) = new"
    using tr by (rule added_append)
  have cs: "chat_calls new = lc @ rest"
    and lk: "linked [SystemMessage (Str system_prompt)] (lc @ rest)"
    using run unfolding analysis_run_def by blast+
  have "length (fst (chat_calls new ! j)) = 1 + 2 * j + 1" if "j < length (chat_calls new)" for j
  proof -
    from linked_roles [OF lk] that cs
    have "map role_of (fst (chat_calls new ! j))
            = map role_of [SystemMessage (Str system_prompt)] @ concat (replicate j [User, Assistant]) @ [User]"
      by simp
    from arg_cong [OF this, of length] show ?thesis
      by (simp add: length_concat sum_list_replicate)
  qed
  then show ?thesis
    unfolding a Let_def by blast
  qed
  have p3: "map role_of (messages loc)
          = System # concat (replicate (length ps) [User, Assistant]) @ [User]
        \<and> length (messages loc) = 1 + 2 * length ps + 1
        \<and> last (messages loc) = HumanMessage (Str summary_prompt)"
    if et: "evaluate_try ev ps out w = (Inr (loc, summary), w')"
  proof -
  obtain new bs lc rest where run: "analysis_run ps (Inr (loc, summary)) new bs lc rest"
    using evaluate_try_run [of ev ps out w] et by auto
  have lc: "loop_calls 0 ?sys bs lc"
    and fin: "\<forall>loc' summary'. Inr (loc, summary) = (Inr (loc', summary') :: error + locals \<times> string) \<longrightarrow>
            length lc = length ps
            \<and> map snd lc = map Inr (annotations loc')
            \<and> rest = [(messages loc', Inr summary')]
            \<and> messages loc' = conv_end ?sys lc @ [HumanMessage (Str summary_prompt)]"
    using run unfolding analysis_run_def by blast+
  from fin have ll: "length lc = length ps"
    and an: "map snd lc = map Inr (annotations loc)"
    and ms: "messages loc = conv_end ?sys lc @ [HumanMessage (Str summary_prompt)]" by auto
  have ok: "\<forall>c\<in>set lc. \<exists>a. snd c = Inr a"
  proof
    fix c assume "c \<in> set lc"
    then have "snd c \<in> set (map snd lc)" by simp
    then show "\<exists>a. snd c = Inr a" unfolding an by auto
  qed
  from conv_end_roles [OF loop_calls_linked [OF lc] ok]
  have r: "map role_of (messages loc)
             = System # concat (replicate (length ps) [User, Assistant]) @ [User]"
    by (simp add: ms ll)
  from arg_cong [OF r, of length] have "length (messages loc) = 1 + 2 * length ps + 1"
    by (simp add: length_concat sum_list_replicate)
  then show ?thesis
    using r by (simp add: ms)
  qed
  show ?thesis using p1 p2 p3 by blast
qed

theorem chat_given_whole_conversation_witness:
  "length (chat_calls (added w_init (snd (evaluateScreenshotsWithClaude env_ok
             [''screenshots/a.png''] ''analysis'' w_init)))) = 2
   \<and> map role_of (fst (chat_calls (added w_init (snd (evaluateScreenshotsWithClaude env_ok
             [''screenshots/a.png''] ''analysis'' w_init))) ! 1))
       = [System, User, Assistant, User]
   \<and> (\<exists>u. fst (chat_calls (added w_init (snd (evaluateScreenshotsWithClaude env_ok
             [''screenshots/a.png''] ''analysis'' w_init))) ! 1)
          = fst (chat_calls (added w_init (snd (evaluateScreenshotsWithClaude env_ok
             [''screenshots/a.png''] ''analysis'' w_init))) ! 0)
            @ [AIMessage (Str ''reply 2''), u])"
proof -
  define cs where "cs = chat_calls (added w_init (snd (evaluateScreenshotsWithClaude env_ok
             [''screenshots/a.png''] ''analysis'' w_init)))"
  have l: "length cs = 2" unfolding cs_def by code_simp
  have r0: "snd (cs ! 0) = Inr ''reply 2''" unfolding cs_def by code_simp
  from chat_given_whole_conversation [of w_init env_ok "[''screenshots/a.png'']" "''analysis''"]
  have A: "\<forall>k<length cs. hd (fst (cs ! k)) = SystemMessage (Str system_prompt)
         \<and> map role_of (fst (cs ! k)) = System # concat (replicate k [User, Assistant]) @ [User]"
    and B: "\<forall>k. Suc k < length cs \<longrightarrow>
           (\<exists>a u. snd (cs ! k) = Inr a \<and> fst (cs ! Suc k) = fst (cs ! k) @ [AIMessage (Str a), u])"
    unfolding Let_def cs_def [symmetric] by blast+
  from A [rule_format, of 1] l
  have 1: "map role_of (fst (cs ! 1)) = [System, User, Assistant, User]" by simp
  from B [rule_format, of 0] l r0
  have 2: "\<exists>u. fst (cs ! 1) = fst (cs ! 0) @ [AIMessage (Str ''reply 2''), u]" by auto
  show ?thesis using l 1 2 unfolding cs_def by blast
qed

theorem first_prompt_differs_witness:
  "prompt_of (last (fst (chat_calls (added w_init (snd (evaluateScreenshotsWithClaude env_ok
      [''screenshots/a.png'', ''screenshots/b.png''] ''analysis'' w_init))) ! 0))) = Some first_prompt
   \<and> prompt_of (last (fst (chat_calls (added w_init (snd (evaluateScreenshotsWithClaude env_ok
      [''screenshots/a.png'', ''screenshots/b.png''] ''analysis'' w_init))) ! 1))) = Some later_prompt
   \<and> promptText 0 \<noteq> promptText 1"
proof -
  define cs where "cs = chat_calls (added w_init (snd (evaluateScreenshotsWithClaude env_ok
      [''screenshots/a.png'', ''screenshots/b.png''] ''analysis'' w_init)))"
  have l: "length cs = 3" unfolding cs_def by code_simp
  from first_prompt_differs [of w_init env_ok "[''screenshots/a.png'', ''screenshots/b.png'']" "''analysis''"]
  have A: "\<forall>k<length cs. k < length [''screenshots/a.png'', ''screenshots/b.png''] \<longrightarrow>
              prompt_of (last (fst (cs ! k))) = Some (promptText k)"
    and B: "promptText 0 = first_prompt"
    and C: "\<forall>k. 0 < k \<longrightarrow> promptText k = later_prompt \<and> promptText 0 \<noteq> promptText k"
    unfolding Let_def cs_def [symmetric] by blast+
  from A [rule_format, of 0] A [rule_format, of 1] B C [rule_format, of 1] l
  show ?thesis unfolding cs_def [symmetric] by auto
qed

theorem annotations_aligned_witness:
  "length (fst (fst (evaluateScreenshotsWithClaude env_ok [''screenshots/a.png''] ''analysis'' w_init))) = 1
   \<and> snd (chat_calls (added w_init (snd (evaluate_try env_ok [''screenshots/a.png''] ''analysis'' w_init))) ! 0)
       = Inr (fst (fst (evaluateScreenshotsWithClaude env_ok [''screenshots/a.png''] ''analysis'' w_init)) ! 0)
   \<and> fst (images_read (added w_init (snd (evaluate_try env_ok [''screenshots/a.png''] ''analysis'' w_init))) ! 0)
       = ''screenshots/a.png''"
proof -
  have "\<not> isl (fst (evaluate_try env_ok [''screenshots/a.png''] ''analysis'' w_init))"
    by code_simp
  then obtain loc summary w' where
    et: "evaluate_try env_ok [''screenshots/a.png''] ''analysis'' w_init = (Inr (loc, summary), w')"
    by (cases "evaluate_try env_ok [''screenshots/a.png''] ''analysis'' w_init";
        cases "fst (evaluate_try env_ok [''screenshots/a.png''] ''analysis'' w_init)") auto
  from annotations_aligned [OF et]
  have r: "evaluateScreenshotsWithClaude env_ok [''screenshots/a.png''] ''analysis'' w_init
             = ((annotations loc, summary), w')"
    and l: "length (annotations loc) = length [''screenshots/a.png'']"
    and e: "\<forall>k<length [''screenshots/a.png''].
                fst (images_read (added w_init w') ! k) = [''screenshots/a.png''] ! k
                \<and> last (fst (chat_calls (added w_init w') ! k))
                    = user_turn k (snd (images_read (added w_init w') ! k))
                \<and> snd (chat_calls (added w_init w') ! k) = Inr (annotations loc ! k)"
    unfolding Let_def by blast+
  from e [rule_format, of 0] l show ?thesis
    by (simp add: r et)
qed

theorem conversation_turns_witness:
  "map_option length (final_conversation
      (fst (evaluate_try env_ok [''screenshots/a.png''] ''analysis'' w_init))) = Some (1 + 2 * 1 + 1)
   \<and> map_option last (final_conversation
      (fst (evaluate_try env_ok [''screenshots/a.png''] ''analysis'' w_init)))
       = Some (HumanMessage (Str summary_prompt))"
proof -
  have "\<not> isl (fst (evaluate_try env_ok [''screenshots/a.png''] ''analysis'' w_init))"
    by code_simp
  then obtain loc summary w' where
    et: "evaluate_try env_ok [''screenshots/a.png''] ''analysis'' w_init = (Inr (loc, summary), w')"
    by (cases "evaluate_try env_ok [''screenshots/a.png''] ''analysis'' w_init";
        cases "fst (evaluate_try env_ok [''screenshots/a.png''] ''analysis'' w_init)") auto
  from conversation_turns [of env_ok "[''screenshots/a.png'']" _ _ _ w_init "''analysis''" loc summary w'] et
  have "length (messages loc) = 1 + 2 * length [''screenshots/a.png''] + 1"
    and "last (messages loc) = HumanMessage (Str summary_prompt)"
    by blast+
  then show ?thesis by (simp add: et final_conversation_def)
qed

text \<open>
  Claim C2 as the specification states it fails: with one screenshot and a chat model that
  always replies, the conversation the \<^verbatim>\<open>try\<close> block ends with has 4 turns (system,
  user, assistant, user), not \<open>1 + 2 + 2\<close>.
\<close>

theorem conversation_turns_counterexample:
  "map_option length (final_conversation
      (fst (evaluate_try env_ok [''screenshots/a.png''] ''analysis'' w_init))) = Some 4
   \<and> map_option length (final_conversation
      (fst (evaluate_try env_ok [''screenshots/a.png''] ''analysis'' w_init)))
       \<noteq> Some (1 + 2 * length [''screenshots/a.png''] + 2)
   \<and> map_option (map role_of) (final_conversation
      (fst (evaluate_try env_ok [''screenshots/a.png''] ''analysis'' w_init)))
       = Some [System, User, Assistant, User]"
  by code_simp

text \<open>
  Claim C1 at two screenshots and a chat model that fails on its first call. The analysis
  returns one annotation, the error text, for the two screenshots, and the error text as
  the summary. \<^verbatim>\<open>main\<close> returns normally and goes on to \<^verbatim>\<open>createReports\<close>, which copies
  the first screenshot, writes that one annotation, copies the second screenshot and then
  has no annotation to write: the summary document and the index document are not written,
  and the error of the write is printed.
\<close>

theorem degraded_annotations_one_entry:
  "fst (evaluateScreenshotsWithClaude env_chat_down
          [''screenshots/a.png'', ''screenshots/b.png''] ''analysis'' w_init)
     = ([''Error evaluating screenshots: Error: overloaded''],
        ''Error generating summary: Error: overloaded'')
   \<and> fst (main env_chat_down ''screenshots'' ''analysis'' 2 1000 w_init) = Inr ()
   \<and> fs_done (added w_init (snd (main env_chat_down ''screenshots'' ''analysis'' 2 1000 w_init)))
       = [CopyFileSync ''screenshots/screenshot-1-2025-01-01T12-00-00.000Z.png''
            ''analysis/screenshot-1-2025-01-01T12-00-00.000Z.png'',
          WriteFileSync ''analysis/screenshot-1-2025-01-01T12-00-00.000Z-annotation.md''
            ''Error evaluating screenshots: Error: overloaded'',
          CopyFileSync ''screenshots/screenshot-2-2025-01-01T12-00-00.000Z.png''
            ''analysis/screenshot-2-2025-01-01T12-00-00.000Z.png'']
   \<and> ConsoleError (''Error creating reports: '' @ invalid_data_error)
        \<in> set (console (snd (main env_chat_down ''screenshots'' ''analysis'' 2 1000 w_init)))"
proof -
  let ?paths = "[''screenshots/screenshot-1-2025-01-01T12-00-00.000Z.png'',
                 ''screenshots/screenshot-2-2025-01-01T12-00-00.000Z.png'']"
  let ?anns = "[''Error evaluating screenshots: Error: overloaded'']"
  let ?sum = "''Error generating summary: Error: overloaded''"
  define w2 where "w2 = console_log ''All screenshots taken. Now evaluating with Claude...''
                          (snd (capture_loop env_chat_down ''screenshots'' 2 1000 0 [] w_init))"
  define w3 where "w3 = snd (evaluateScreenshotsWithClaude env_chat_down ?paths ''analysis'' w2)"
  have s0: "fst (evaluateScreenshotsWithClaude env_chat_down
          [''screenshots/a.png'', ''screenshots/b.png''] ''analysis'' w_init) = (?anns, ?sum)"
    by code_simp
  have s1: "fst (capture_loop env_chat_down ''screenshots'' 2 1000 0 [] w_init) = Inr ?paths"
    by code_simp
  have s2: "fst (evaluateScreenshotsWithClaude env_chat_down ?paths ''analysis'' w2) = (?anns, ?sum)"
    unfolding w2_def by code_simp
  have s3: "fs_done (added w_init (createReports env_chat_down ?paths ?anns ?sum ''analysis'' w3))
       = [CopyFileSync ''screenshots/screenshot-1-2025-01-01T12-00-00.000Z.png''
            ''analysis/screenshot-1-2025-01-01T12-00-00.000Z.png'',
          WriteFileSync ''analysis/screenshot-1-2025-01-01T12-00-00.000Z-annotation.md''
            ''Error evaluating screenshots: Error: overloaded'',
          CopyFileSync ''screenshots/screenshot-2-2025-01-01T12-00-00.000Z.png''
            ''analysis/screenshot-2-2025-01-01T12-00-00.000Z.png'']"
    unfolding w3_def w2_def by code_simp
  have s4: "ConsoleError (''Error creating reports: '' @ invalid_data_error)
        \<in> set (console (createReports env_chat_down ?paths ?anns ?sum ''analysis'' w3))"
    unfolding w3_def w2_def by code_simp
  note m = main_after_capture [OF s1, of "''analysis''", unfolded w2_def [symmetric] s2 fst_conv snd_conv
      w3_def [symmetric]]
  have "added w_init (snd (main env_chat_down ''screenshots'' ''analysis'' 2 1000 w_init))
          = added w_init (createReports env_chat_down ?paths ?anns ?sum ''analysis'' w3)"
    using m(2) by (simp add: added_def)
  then show ?thesis
    using s0 s3 s4 m(1) m(3) by auto
qed


end
